theory Spec2Isabelle
  imports
    Main
    "HOL-Library.Sublist"
    "HOL-Library.Multiset"
    "HOL-Library.Char_ord"
    "HOL-Library.List_Lexorder"
    "HOL-Library.AList"
begin

section \<open>Python strings and POSIX paths\<close>

text \<open>
  A Python \<open>str\<close> is modelled as a \<open>string\<close> (a list of characters); the order on
  strings used by \<open>list.sort()\<close> is the lexicographic order on character lists.
  The exceptions that the modelled library calls can raise are values of \<open>py_error\<close>.
\<close>

datatype py_error =
    ValueError
  | IndexError
  | OSError
  | ShutilError
  | IsADirectoryError
  | FileNotFoundError
  | UnicodeDecodeError
  | UnicodeEncodeError

text \<open>\<open>s.split(c)\<close> for a one-character separator: never the empty list.\<close>

fun split_on :: "char \<Rightarrow> string \<Rightarrow> string list" where
  "split_on c [] = [[]]"
| "split_on c (x # xs) =
     (if x = c then [] # split_on c xs
      else (case split_on c xs of [] \<Rightarrow> [[x]] | w # ws \<Rightarrow> (x # w) # ws))"

text \<open>\<open>sep.join(xs)\<close>.\<close>

fun join_with :: "string \<Rightarrow> string list \<Rightarrow> string" where
  "join_with sep [] = []"
| "join_with sep [x] = x"
| "join_with sep (x # y # ys) = x @ sep @ join_with sep (y # ys)"

text \<open>\<open>s.endswith(t)\<close> and \<open>s.startswith(t)\<close>.\<close>

definition endswith :: "string \<Rightarrow> string \<Rightarrow> bool" where
  "endswith s t = (length t \<le> length s \<and> drop (length s - length t) s = t)"

definition startswith :: "string \<Rightarrow> string \<Rightarrow> bool" where
  "startswith s t = (take (length t) s = t)"

text \<open>
  \<open>posixpath.join(a, b)\<close> with two arguments, and the variadic \<open>join(*parts)\<close> that
  \<open>relpath\<close> uses, which folds the two-argument form over a non-empty list.
\<close>

definition path_join :: "string \<Rightarrow> string \<Rightarrow> string" where
  "path_join a b =
     (if startswith b ''/'' then b
      else if a = [] \<or> endswith a ''/'' then a @ b
      else a @ ''/'' @ b)"

fun path_join_all :: "string list \<Rightarrow> string" where
  "path_join_all [] = []"
| "path_join_all (p # ps) = foldl path_join p ps"

text \<open>
  The component loop of \<open>posixpath.normpath\<close>: empty components and \<open>.\<close> are skipped,
  \<open>..\<close> removes the component before it or is kept when nothing can be removed in a
  relative path. \<open>absolute\<close> is the \<open>initial_slashes\<close> test of the library.
\<close>

fun norm_comps :: "bool \<Rightarrow> string list \<Rightarrow> string list \<Rightarrow> string list" where
  "norm_comps absolute new_comps [] = new_comps"
| "norm_comps absolute new_comps (part # parts) =
     (if part = [] \<or> part = ''.'' then norm_comps absolute new_comps parts
      else if part \<noteq> ''..'' \<or> (\<not> absolute \<and> new_comps = [])
                \<or> (new_comps \<noteq> [] \<and> last new_comps = ''..'')
        then norm_comps absolute (new_comps @ [part]) parts
      else if new_comps \<noteq> [] then norm_comps absolute (butlast new_comps) parts
      else norm_comps absolute new_comps parts)"

definition initial_slashes :: "string \<Rightarrow> nat" where
  "initial_slashes path =
     (if \<not> startswith path ''/'' then 0
      else if startswith path ''//'' \<and> \<not> startswith path ''///'' then 2
      else 1)"

definition normpath :: "string \<Rightarrow> string" where
  "normpath path =
     (if path = [] then ''.''
      else
        let comps = norm_comps (initial_slashes path \<noteq> 0) [] (split_on CHR ''/'' path);
            p = replicate (initial_slashes path) CHR ''/'' @ join_with ''/'' comps
        in if p = [] then ''.'' else p)"

text \<open>
  \<open>posixpath.abspath\<close>; the process's working directory, which the library reads with
  \<open>os.getcwd()\<close>, is the parameter \<open>cwd\<close>.
\<close>

definition abspath :: "string \<Rightarrow> string \<Rightarrow> string" where
  "abspath cwd path =
     normpath (if startswith path ''/'' then path else path_join cwd path)"

text \<open>
  \<open>posixpath.relpath(path, start)\<close>. The library's \<open>commonprefix\<close> of the two component
  lists is their longest common prefix. An empty \<open>path\<close> raises \<open>ValueError\<close>.
\<close>

definition path_comps :: "string \<Rightarrow> string list" where
  "path_comps p = filter (\<lambda>x. x \<noteq> []) (split_on CHR ''/'' p)"

definition relpath :: "string \<Rightarrow> string \<Rightarrow> string \<Rightarrow> py_error + string" where
  "relpath cwd path start =
     (if path = [] then Inl ValueError
      else
        let start_list = path_comps (abspath cwd start);
            path_list = path_comps (abspath cwd path);
            i = length (longest_common_prefix start_list path_list);
            rel_list = replicate (length start_list - i) ''..'' @ drop i path_list
        in if rel_list = [] then Inr ''.'' else Inr (path_join_all rel_list))"

text \<open>\<open>posixpath.dirname\<close>: everything up to the last slash, trailing slashes removed
  unless the head consists of slashes only.\<close>

definition rfind_slash :: "string \<Rightarrow> nat" where
  \<comment> \<open>\<open>p.rfind('/') + 1\<close>: the length of the longest prefix ending in a slash, or 0\<close>
  "rfind_slash p = length p - length (takeWhile (\<lambda>c. c \<noteq> CHR ''/'') (rev p))"

definition rstrip_slashes :: "string \<Rightarrow> string" where
  "rstrip_slashes p = rev (dropWhile (\<lambda>c. c = CHR ''/'') (rev p))"

definition dirname :: "string \<Rightarrow> string" where
  "dirname p =
     (let head = take (rfind_slash p) p
      in if head \<noteq> [] \<and> head \<noteq> replicate (length head) CHR ''/''
         then rstrip_slashes head else head)"

section \<open>Directory trees and \<open>os.walk\<close>\<close>

text \<open>
  A directory is the list of its entries in the order in which the operating system
  lists them; an entry is a regular file with its content or a subdirectory.
\<close>

datatype node = File string | Dir "(string \<times> node) list"

type_synonym entries = "(string \<times> node) list"

type_synonym walk_item = "string \<times> string list \<times> string list"

fun dir_names :: "entries \<Rightarrow> string list" where
  "dir_names [] = []"
| "dir_names ((n, File c) # es) = dir_names es"
| "dir_names ((n, Dir d) # es) = n # dir_names es"

fun file_names :: "entries \<Rightarrow> string list" where
  "file_names [] = []"
| "file_names ((n, File c) # es) = n # file_names es"
| "file_names ((n, Dir d) # es) = file_names es"

text \<open>
  \<open>os.walk(top)\<close>, top-down: the triple of the directory itself, then the walks of its
  subdirectories, each under \<open>join(top, name)\<close>.
\<close>

fun walk :: "string \<Rightarrow> entries \<Rightarrow> walk_item list"
  and walk_subdirs :: "string \<Rightarrow> entries \<Rightarrow> walk_item list" where
  "walk root es = (root, dir_names es, file_names es) # walk_subdirs root es"
| "walk_subdirs root [] = []"
| "walk_subdirs root ((n, File c) # es) = walk_subdirs root es"
| "walk_subdirs root ((n, Dir d) # es) = walk (path_join root n) d @ walk_subdirs root es"

section \<open>The route manifest generator\<close>

definition base_dir :: string where
  "base_dir = ''app/routes''"

text \<open>Lines 13 to 52 of the generator: the registration line of one qualifying file.\<close>

fun url_segments :: "string list \<Rightarrow> string list" where
  "url_segments [] = []"
| "url_segments (seg # segs) =
     (if startswith seg ''$'' then ('':'' @ drop 1 seg) else seg) # url_segments segs"

definition index_like :: "string \<Rightarrow> bool" where
  "index_like filename =
     (filename = ''_index.tsx'' \<or> filename = ''index.tsx'' \<or> filename = ''route.tsx'')"

definition route_segments :: "string \<Rightarrow> py_error + string list" where
  "route_segments path_rel =
     (let segments = (if CHR ''/'' \<in> set path_rel then split_on CHR ''/'' path_rel
                      else [path_rel])
      in if segments = [] then Inl IndexError
         else
           let filename = last segments
           in if index_like filename then Inr (butlast segments)
              else if endswith filename ''.tsx''
                then Inr (segments[length segments - 1 := take (length filename - 4) filename])
              else Inr segments)"

definition index_line :: "string \<Rightarrow> string" where
  \<open>index_line rel_path = ''    index("'' @ rel_path @ ''"),''\<close>

definition route_line :: "string \<Rightarrow> string \<Rightarrow> string" where
  \<open>route_line url_path rel_path =
     ''    route("'' @ url_path @ ''", "'' @ rel_path @ ''"),''\<close>

definition url_path_of :: "string \<Rightarrow> py_error + string" where
  "url_path_of path_rel =
     (case route_segments path_rel of
        Inl e \<Rightarrow> Inl e
      | Inr segments \<Rightarrow> Inr (join_with ''/'' (url_segments segments)))"

definition route_entry :: "string \<Rightarrow> string \<Rightarrow> string \<Rightarrow> py_error + string" where
  "route_entry cwd root file =
     (let full_path = path_join root file
      in case relpath cwd full_path ''app'' of
           Inl e \<Rightarrow> Inl e
         | Inr rel_path \<Rightarrow>
             (case relpath cwd full_path base_dir of
                Inl e \<Rightarrow> Inl e
              | Inr path_rel \<Rightarrow>
                  (case url_path_of path_rel of
                     Inl e \<Rightarrow> Inl e
                   | Inr url_path \<Rightarrow>
                       if url_path = [] then Inr (index_line rel_path)
                       else Inr (route_line url_path rel_path))))"

text \<open>
  The two nested loops. The walk is consumed as a sequence of events: a yielded triple,
  or an exception raised by the iteration, which ends the run.
\<close>

datatype walk_event = Yield walk_item | Raise py_error

fun files_loop :: "string \<Rightarrow> string \<Rightarrow> string list \<Rightarrow> string list \<Rightarrow> py_error + string list" where
  "files_loop cwd root [] routes = Inr routes"
| "files_loop cwd root (file # files) routes =
     (if \<not> endswith file ''.tsx'' then files_loop cwd root files routes
      else (case route_entry cwd root file of
              Inl e \<Rightarrow> Inl e
            | Inr line \<Rightarrow> files_loop cwd root files (routes @ [line])))"

fun walk_loop :: "string \<Rightarrow> walk_event list \<Rightarrow> string list \<Rightarrow> py_error + string list" where
  "walk_loop cwd [] routes = Inr routes"
| "walk_loop cwd (Raise e # evs) routes = Inl e"
| "walk_loop cwd (Yield (root, dirs, files) # evs) routes =
     (case files_loop cwd root files routes of
        Inl e \<Rightarrow> Inl e
      | Inr routes' \<Rightarrow> walk_loop cwd evs routes')"

definition header :: string where
  \<open>header =
     ''import { type RouteConfig, index, route } from "@react-router/dev/routes";''
     @ [CHR 0x0A, CHR 0x0A] @ ''export default ['' @ [CHR 0x0A]\<close>

definition footer :: string where
  "footer = [CHR 0x0A] @ ''] satisfies RouteConfig;'' @ [CHR 0x0A]"

definition content_of :: "string list \<Rightarrow> string" where
  "content_of routes = header @ join_with [CHR 0x0A] (sort routes) @ footer"

text \<open>
  The whole script. The state is the content of the output file \<open>app/routes.ts\<close>
  (\<open>None\<close> when it does not exist); the result pairs the exception that ended the run,
  if any, with the state the run leaves behind. A walk that raises ends the run before
  the output file is opened. Otherwise \<open>open(output_file, "w")\<close>, which is taken to
  succeed, empties the file, and \<open>f.write(content)\<close> encodes the text: a text that the
  encoding of the platform cannot encode (a file name that is not valid in it appears in
  the text through \<open>surrogateescape\<close>) raises \<open>UnicodeEncodeError\<close> and leaves the file
  empty. Which byte strings are the encoding of a text is the parameter \<open>encodable\<close>. The
  lines are ordered as byte strings; for a text that the write accepts this is the order
  of \<open>list.sort()\<close> on the decoded strings, since the encodings in use (UTF-8, Latin-1,
  ASCII) keep the order of the code points.
\<close>

definition generate ::
  "(string \<Rightarrow> bool) \<Rightarrow> string \<Rightarrow> walk_event list \<Rightarrow> string option \<Rightarrow> py_error option \<times> string option" where
  "generate encodable cwd evs output_file =
     (case walk_loop cwd evs [] of
        Inl e \<Rightarrow> (Some e, output_file)
      | Inr routes \<Rightarrow>
          if encodable (content_of routes) then (None, Some (content_of routes))
          else (Some UnicodeEncodeError, Some []))"

definition generate_tree ::
  "(string \<Rightarrow> bool) \<Rightarrow> string \<Rightarrow> entries \<Rightarrow> string option \<Rightarrow> py_error option \<times> string option" where
  "generate_tree encodable cwd es output_file =
     generate encodable cwd (map Yield (walk base_dir es)) output_file"

section \<open>Well-formed inputs and the specification of a registration line\<close>

text \<open>
  A name that a POSIX directory listing can contain: not empty, no slash, and neither of
  the two reserved entries \<open>.\<close> and \<open>..\<close>.
\<close>

definition valid_name :: "string \<Rightarrow> bool" where
  "valid_name n = (n \<noteq> [] \<and> CHR ''/'' \<notin> set n \<and> n \<noteq> ''.'' \<and> n \<noteq> ''..'')"

definition plain :: "string \<Rightarrow> bool" where
  "plain s = (s \<noteq> [] \<and> CHR ''/'' \<notin> set s)"

fun valid_tree :: "entries \<Rightarrow> bool" where
  "valid_tree [] = True"
| "valid_tree ((n, File c) # es) = (valid_name n \<and> valid_tree es)"
| "valid_tree ((n, Dir d) # es) = (valid_name n \<and> valid_tree d \<and> valid_tree es)"

text \<open>The normalised components of the working directory, as \<open>abspath\<close> computes them.\<close>

definition cwd_comps :: "string \<Rightarrow> string list" where
  "cwd_comps cwd = norm_comps (startswith cwd ''/'') [] (split_on CHR ''/'' cwd)"

text \<open>
  Every regular file of a tree, as the pair of the directory names that lead to it from
  the root and its own name; files of a directory come before those of its subdirectories.
\<close>

fun tree_files :: "entries \<Rightarrow> (string list \<times> string) list"
  and nested_files :: "entries \<Rightarrow> (string list \<times> string) list" where
  "tree_files es = map (Pair []) (file_names es) @ nested_files es"
| "nested_files [] = []"
| "nested_files ((n, File c) # es) = nested_files es"
| "nested_files ((n, Dir d) # es) = map (\<lambda>(ds, f). (n # ds, f)) (tree_files d) @ nested_files es"

definition qualifying :: "(string list \<times> string) list \<Rightarrow> (string list \<times> string) list" where
  "qualifying fs = filter (\<lambda>(ds, f). endswith f ''.tsx'') fs"

text \<open>The string that \<open>os.walk\<close> yields as \<open>root\<close> for the directory reached through \<open>ds\<close>.\<close>

definition dir_root :: "string list \<Rightarrow> string" where
  "dir_root ds = foldl path_join base_dir ds"

definition strip_ext :: "string \<Rightarrow> string" where
  "strip_ext file = take (length file - 4) file"

text \<open>
  The registration line as the specification words it (steps 3 to 6 of its algorithm),
  on the directory names \<open>ds\<close> and the file name: the import path is the path below the
  parent of the root, extension kept; an index-like name is dropped, any other name loses
  its extension; sigil segments become parameters; an empty URL gives the index form.
\<close>

definition registration_line :: "string list \<Rightarrow> string \<Rightarrow> string" where
  \<open>registration_line ds file =
     (let import_path = join_with ''/'' (''routes'' # ds @ [file]);
          segs = (if index_like file then ds else ds @ [strip_ext file]);
          url = join_with ''/'' (url_segments segs)
      in if url = [] then ''    index("'' @ import_path @ ''"),''
         else ''    route("'' @ url @ ''", "'' @ import_path @ ''"),'')\<close>

definition lines_under :: "string list \<Rightarrow> (string list \<times> string) list \<Rightarrow> string list" where
  "lines_under ds fs = map (\<lambda>(d, f). registration_line (ds @ d) f) (qualifying fs)"

text \<open>
  The qualifying files that a sequence of walk triples presents to the generator, the
  line the generator's loop body computes for one of them, and the exception, if any,
  at which a sequence of walk events stops together with the triples yielded before it.
\<close>

definition tsx_files_of :: "walk_item list \<Rightarrow> (string \<times> string) list" where
  "tsx_files_of items =
     concat (map (\<lambda>(root, dirs, files). map (Pair root) (filter (\<lambda>f. endswith f ''.tsx'') files)) items)"

definition line_of :: "string \<Rightarrow> string \<times> string \<Rightarrow> string" where
  "line_of cwd rf = (case route_entry cwd (fst rf) (snd rf) of Inl e \<Rightarrow> [] | Inr line \<Rightarrow> line)"

fun raised :: "walk_event list \<Rightarrow> py_error option" where
  "raised [] = None"
| "raised (Raise e # evs) = Some e"
| "raised (Yield item # evs) = raised evs"

fun yielded :: "walk_event list \<Rightarrow> walk_item list" where
  "yielded [] = []"
| "yielded (Raise e # evs) = []"
| "yielded (Yield item # evs) = item # yielded evs"

text \<open>
  UTF-8 as the encoding of the platform: the byte strings that are the encoding of a
  text, after RFC 3629 (no overlong forms, no surrogates, nothing above U+10FFFF).
\<close>

definition in_range :: "nat \<Rightarrow> nat \<Rightarrow> char \<Rightarrow> bool" where
  "in_range lo hi c = (lo \<le> of_char c \<and> of_char c \<le> hi)"

fun utf8_valid :: "string \<Rightarrow> bool" where
  "utf8_valid [] = True"
| "utf8_valid (c # cs) =
     (if in_range 0x00 0x7F c then utf8_valid cs
      else if in_range 0xC2 0xDF c then
        (case cs of
           c1 # r \<Rightarrow> in_range 0x80 0xBF c1 \<and> utf8_valid r
         | _ \<Rightarrow> False)
      else if in_range 0xE0 0xEF c then
        (case cs of
           c1 # c2 # r \<Rightarrow>
             in_range (if c = CHR 0xE0 then 0xA0 else 0x80) (if c = CHR 0xED then 0x9F else 0xBF) c1
             \<and> in_range 0x80 0xBF c2 \<and> utf8_valid r
         | _ \<Rightarrow> False)
      else if in_range 0xF0 0xF4 c then
        (case cs of
           c1 # c2 # c3 # r \<Rightarrow>
             in_range (if c = CHR 0xF0 then 0x90 else 0x80) (if c = CHR 0xF4 then 0x8F else 0xBF) c1
             \<and> in_range 0x80 0xBF c2 \<and> in_range 0x80 0xBF c3 \<and> utf8_valid r
         | _ \<Rightarrow> False)
      else False)"

section \<open>The index file renamer\<close>

subsection \<open>A file system below a base directory\<close>

text \<open>
  The renamer works on absolute path strings below its base directory. The state of the
  file system is the tree of that directory; a path string is resolved to the list of
  names after the base. Paths that do not lie below the base resolve to nothing.
\<close>

definition resolve :: "string \<Rightarrow> string \<Rightarrow> string list option" where
  "resolve base p =
     (if startswith p (base @ ''/'')
      then Some (split_on CHR ''/'' (drop (length base + 1) p)) else None)"

fun lookup :: "entries \<Rightarrow> string list \<Rightarrow> node option" where
  "lookup es [] = Some (Dir es)"
| "lookup es (n # ns) =
     (case map_of es n of
        None \<Rightarrow> None
      | Some (File c) \<Rightarrow> (if ns = [] then Some (File c) else None)
      | Some (Dir d) \<Rightarrow> lookup d ns)"

text \<open>
  Creating or overwriting the regular file at a path, and unlinking the regular file at
  a path. Neither touches a directory entry; both leave the tree as it is when the path
  cannot be followed.
\<close>

fun put_file :: "string list \<Rightarrow> string \<Rightarrow> entries \<Rightarrow> entries" where
  "put_file [] c es = es"
| "put_file [n] c es =
     (case map_of es n of Some (Dir d) \<Rightarrow> es | _ \<Rightarrow> AList.update n (File c) es)"
| "put_file (n # m # ns) c es =
     (case map_of es n of
        Some (Dir d) \<Rightarrow> AList.update n (Dir (put_file (m # ns) c d)) es
      | _ \<Rightarrow> es)"

fun remove_file :: "string list \<Rightarrow> entries \<Rightarrow> entries" where
  "remove_file [] es = es"
| "remove_file [n] es =
     (case map_of es n of Some (File c) \<Rightarrow> AList.delete n es | _ \<Rightarrow> es)"
| "remove_file (n # m # ns) es =
     (case map_of es n of
        Some (Dir d) \<Rightarrow> AList.update n (Dir (remove_file (m # ns) d)) es
      | _ \<Rightarrow> es)"

definition isdir :: "string \<Rightarrow> entries \<Rightarrow> string \<Rightarrow> bool" where
  "isdir base es p =
     (case resolve base p of
        None \<Rightarrow> False
      | Some ns \<Rightarrow> (case lookup es ns of Some (Dir d) \<Rightarrow> True | _ \<Rightarrow> False))"

definition path_exists :: "string \<Rightarrow> entries \<Rightarrow> string \<Rightarrow> bool" where
  "path_exists base es p =
     (case resolve base p of None \<Rightarrow> False | Some ns \<Rightarrow> lookup es ns \<noteq> None)"

text \<open>
  \<open>os.rename(src, dst)\<close> for a regular file \<open>src\<close>, the only kind the renamer moves: an
  existing regular file at \<open>dst\<close> is replaced silently, a directory at \<open>dst\<close> is an error,
  and the directory that is to hold \<open>dst\<close> must exist.
\<close>

definition os_rename :: "string \<Rightarrow> entries \<Rightarrow> string \<Rightarrow> string \<Rightarrow> py_error + entries" where
  "os_rename base es src dst =
     (case resolve base src of
        None \<Rightarrow> Inl FileNotFoundError
      | Some s \<Rightarrow>
          (case resolve base dst of
             None \<Rightarrow> Inl FileNotFoundError
           | Some d \<Rightarrow>
               (case lookup es s of
                  Some (File c) \<Rightarrow>
                    (case lookup es d of
                       Some (Dir x) \<Rightarrow> Inl IsADirectoryError
                     | _ \<Rightarrow>
                         (case lookup es (butlast d) of
                            Some (Dir x) \<Rightarrow> Inr (put_file d c (remove_file s es))
                          | _ \<Rightarrow> Inl FileNotFoundError))
                | Some (Dir x) \<Rightarrow> Inl OSError
                | None \<Rightarrow> Inl FileNotFoundError)))"

definition basename :: "string \<Rightarrow> string" where
  "basename p = drop (rfind_slash p) p"

text \<open>
  \<open>shutil.move(src, dst)\<close>: when \<open>dst\<close> is an existing directory the file is moved into
  it under its own name, unless that name is taken there. When \<open>os.rename\<close> fails, the
  library retries by copying, which fails in the same way on the errors modelled here.
\<close>

definition shutil_move :: "string \<Rightarrow> entries \<Rightarrow> string \<Rightarrow> string \<Rightarrow> py_error + entries" where
  "shutil_move base es src dst =
     (if isdir base es dst
      then (let real_dst = path_join dst (basename (rstrip_slashes src))
            in if path_exists base es real_dst then Inl ShutilError
               else os_rename base es src real_dst)
      else os_rename base es src dst)"

text \<open>
  Reading in text mode translates every \<open>\r\n\<close> and every remaining \<open>\r\<close> to \<open>\n\<close>
  (universal newlines, the default of \<open>open\<close>). Writing in text mode translates \<open>\n\<close> to
  the line separator of the platform, which is \<open>\n\<close> itself on POSIX systems, where the
  base directory of the renamer lies. The bytes of a file that the default encoding
  cannot decode raise an error on reading; which byte strings decode is the parameter
  \<open>decodable\<close>, and a decodable content is taken to encode back to the same bytes.
\<close>

fun universal_newlines :: "string \<Rightarrow> string" where
  "universal_newlines [] = []"
| "universal_newlines [c] = (if c = CHR 0x0D then [CHR 0x0A] else [c])"
| "universal_newlines (c # d # cs) =
     (if c = CHR 0x0D \<and> d = CHR 0x0A then CHR 0x0A # universal_newlines cs
      else if c = CHR 0x0D then CHR 0x0A # universal_newlines (d # cs)
      else c # universal_newlines (d # cs))"

definition read_text :: "(string \<Rightarrow> bool) \<Rightarrow> string \<Rightarrow> entries \<Rightarrow> string \<Rightarrow> py_error + string" where
  "read_text decodable base es p =
     (case resolve base p of
        None \<Rightarrow> Inl FileNotFoundError
      | Some ns \<Rightarrow>
          (case lookup es ns of
             None \<Rightarrow> Inl FileNotFoundError
           | Some (Dir d) \<Rightarrow> Inl IsADirectoryError
           | Some (File c) \<Rightarrow>
               if decodable c then Inr (universal_newlines c) else Inl UnicodeDecodeError))"

definition write_text :: "string \<Rightarrow> entries \<Rightarrow> string \<Rightarrow> string \<Rightarrow> py_error + entries" where
  "write_text base es p s =
     (case resolve base p of
        None \<Rightarrow> Inl FileNotFoundError
      | Some ns \<Rightarrow>
          (case lookup es ns of
             Some (Dir d) \<Rightarrow> Inl IsADirectoryError
           | _ \<Rightarrow>
               (case lookup es (butlast ns) of
                  Some (Dir d) \<Rightarrow> Inr (put_file ns s es)
                | _ \<Rightarrow> Inl FileNotFoundError)))"

subsection \<open>The script\<close>

text \<open>\<open>s.replace(old, new)\<close>: every occurrence, found from left to right without overlap.\<close>

fun str_replace :: "string \<Rightarrow> string \<Rightarrow> string \<Rightarrow> string" where
  "str_replace [] old new = (if old = [] then new else [])"
| "str_replace (c # cs) old new =
     (if old = [] then new @ c # str_replace cs old new
      else if startswith (c # cs) old
        then new @ str_replace (drop (length old) (c # cs)) old new
      else c # str_replace cs old new)"

definition rename_base_dir :: string where
  "rename_base_dir = ''/Users/jaakkorajala/Projects/hippos_kotisivut/hippos-portal/app/routes''"

definition old_import :: string where
  \<open>old_import = ''from "./+types/_index"''\<close>

definition new_import :: string where
  \<open>new_import = ''from "./+types/index"''\<close>

text \<open>\<open>find_files\<close>: the inner loop over the files of one triple, and the loop over the walk.\<close>

fun find_in_files :: "string \<Rightarrow> string list \<Rightarrow> string list \<Rightarrow> string list" where
  "find_in_files root [] matches = matches"
| "find_in_files root (file # files) matches =
     find_in_files root files
       (if file = ''_index.tsx'' then matches @ [path_join root file] else matches)"

fun find_in_walk :: "walk_item list \<Rightarrow> string list \<Rightarrow> string list" where
  "find_in_walk [] matches = matches"
| "find_in_walk ((root, dirs, files) # items) matches =
     find_in_walk items (find_in_files root files matches)"

definition find_files :: "string \<Rightarrow> entries \<Rightarrow> string list" where
  "find_files dir_path es = find_in_walk (walk dir_path es) []"

text \<open>
  The body of the main loop for one match, and the loop. The result pairs the exception
  that ended the run, if any, with the file system the run leaves behind. The progress
  lines printed to standard output are not part of the state.
\<close>

definition rename_one :: "(string \<Rightarrow> bool) \<Rightarrow> string \<Rightarrow> entries \<Rightarrow> string \<Rightarrow> py_error option \<times> entries" where
  "rename_one decodable base es src =
     (let dst = path_join (dirname src) ''index.tsx''
      in case shutil_move base es src dst of
           Inl e \<Rightarrow> (Some e, es)
         | Inr es1 \<Rightarrow>
             (case read_text decodable base es1 dst of
                Inl e \<Rightarrow> (Some e, es1)
              | Inr content \<Rightarrow>
                  let new_content = str_replace content old_import new_import
                  in if content \<noteq> new_content
                     then (case write_text base es1 dst new_content of
                             Inl e \<Rightarrow> (Some e, es1)
                           | Inr es2 \<Rightarrow> (None, es2))
                     else (None, es1)))"

fun rename_loop :: "(string \<Rightarrow> bool) \<Rightarrow> string \<Rightarrow> entries \<Rightarrow> string list \<Rightarrow> py_error option \<times> entries" where
  "rename_loop decodable base es [] = (None, es)"
| "rename_loop decodable base es (src # srcs) =
     (case rename_one decodable base es src of
        (Some e, es1) \<Rightarrow> (Some e, es1)
      | (None, es1) \<Rightarrow> rename_loop decodable base es1 srcs)"

definition rename_indexes :: "(string \<Rightarrow> bool) \<Rightarrow> entries \<Rightarrow> py_error option \<times> entries" where
  "rename_indexes decodable es =
     rename_loop decodable rename_base_dir es (find_files rename_base_dir es)"

text \<open>
  The paths that a run opens for reading (line 27): the destination of every rename
  that \<open>shutil.move\<close> carried out, in the order of the loop.
\<close>

definition rename_one_reads :: "string \<Rightarrow> entries \<Rightarrow> string \<Rightarrow> string list" where
  "rename_one_reads base es src =
     (let dst = path_join (dirname src) ''index.tsx''
      in case shutil_move base es src dst of
           Inl e \<Rightarrow> []
         | Inr es1 \<Rightarrow> [dst])"

fun rename_loop_reads :: "(string \<Rightarrow> bool) \<Rightarrow> string \<Rightarrow> entries \<Rightarrow> string list \<Rightarrow> string list" where
  "rename_loop_reads decodable base es [] = []"
| "rename_loop_reads decodable base es (src # srcs) =
     rename_one_reads base es src
     @ (case rename_one decodable base es src of
          (Some e, es1) \<Rightarrow> []
        | (None, es1) \<Rightarrow> rename_loop_reads decodable base es1 srcs)"

definition rename_indexes_reads :: "(string \<Rightarrow> bool) \<Rightarrow> entries \<Rightarrow> string list" where
  "rename_indexes_reads decodable es =
     rename_loop_reads decodable rename_base_dir es (find_files rename_base_dir es)"

section \<open>Well-formed trees and the specification of the renamer's steps\<close>

text \<open>
  In a directory of a real file system no two entries have the same name.
\<close>

fun distinct_names :: "entries \<Rightarrow> bool" where
  "distinct_names [] = True"
| "distinct_names ((n, File c) # es) = (n \<notin> fst ` set es \<and> distinct_names es)"
| "distinct_names ((n, Dir d) # es) = (n \<notin> fst ` set es \<and> distinct_names d \<and> distinct_names es)"

text \<open>The content of the regular file at a path, and whether a path is a directory.\<close>

definition file_at :: "entries \<Rightarrow> string list \<Rightarrow> string option" where
  "file_at es p = (case lookup es p of Some (File c) \<Rightarrow> Some c | _ \<Rightarrow> None)"

definition dir_at :: "entries \<Rightarrow> string list \<Rightarrow> bool" where
  "dir_at es p = (case lookup es p of Some (Dir d) \<Rightarrow> True | _ \<Rightarrow> False)"

text \<open>
  A base directory string that \<open>os.path.join\<close> extends with a slash, the string that
  \<open>os.walk\<close> yields for the directory reached through \<open>ds\<close>, and the strings that
  \<open>find_files\<close> returns for a list of files.
\<close>

definition base_ok :: "string \<Rightarrow> bool" where
  "base_ok base = (base \<noteq> [] \<and> last base \<noteq> CHR ''/'')"

definition root_of :: "string \<Rightarrow> string list \<Rightarrow> string" where
  "root_of base ds = foldl path_join base ds"

definition matches_of :: "string \<Rightarrow> (string list \<times> string) list \<Rightarrow> string list" where
  "matches_of base fs =
     map (\<lambda>(ds, f). path_join (root_of base ds) f) (filter (\<lambda>(ds, f). f = ''_index.tsx'') fs)"

definition src_of :: "string \<Rightarrow> string list \<Rightarrow> string" where
  "src_of base ds = path_join (root_of base ds) ''_index.tsx''"

text \<open>The directories that hold a regular file named \<open>_index.tsx\<close>, in walk order.\<close>

definition index_dirs :: "entries \<Rightarrow> string list list" where
  "index_dirs es = map fst (filter (\<lambda>(ds, f). f = ''_index.tsx'') (tree_files es))"

text \<open>
  The step of the main loop on the directory \<open>ds\<close>, written on resolved paths: the result
  of \<open>rename_one\<close> on the string that \<open>find_files\<close> returns for that directory, as
  shown below.
\<close>

definition step_result :: "(string \<Rightarrow> bool) \<Rightarrow> entries \<Rightarrow> string list \<Rightarrow> py_error option \<times> entries" where
  "step_result decodable es ds =
     (let s = ds @ [''_index.tsx'']; d = ds @ [''index.tsx'']; d2 = d @ [''_index.tsx'']
      in case file_at es s of
           None \<Rightarrow>
             (if dir_at es d \<and> lookup es d2 \<noteq> None then (Some ShutilError, es)
              else (Some (if dir_at es s then OSError else FileNotFoundError), es))
         | Some c \<Rightarrow>
             if dir_at es d
             then (if lookup es d2 \<noteq> None then (Some ShutilError, es)
                   else (Some IsADirectoryError, put_file d2 c (remove_file s es)))
             else
               (let es1 = put_file d c (remove_file s es);
                    t = universal_newlines c;
                    t' = str_replace t old_import new_import
                in if \<not> decodable c then (Some UnicodeDecodeError, es1)
                   else if t \<noteq> t' then (None, put_file d t' es1)
                   else (None, es1)))"

fun steps :: "(string \<Rightarrow> bool) \<Rightarrow> entries \<Rightarrow> string list list \<Rightarrow> py_error option \<times> entries" where
  "steps decodable es [] = (None, es)"
| "steps decodable es (ds # dss) =
     (case step_result decodable es ds of
        (Some e, es1) \<Rightarrow> (Some e, es1)
      | (None, es1) \<Rightarrow> steps decodable es1 dss)"


text \<open>The default encoding of a platform on which every byte string decodes.\<close>

definition all_decodable :: "string \<Rightarrow> bool" where
  "all_decodable c = True"

section \<open>Properties of the string and path functions\<close>

lemma split_on_nonempty: "split_on c s \<noteq> []"
  by (induction s) (auto split: list.splits)

lemma split_on_no_sep: "c \<notin> set s \<Longrightarrow> split_on c s = [s]"
  by (induction s) auto

lemma split_on_append:
  "c \<notin> set a \<Longrightarrow> split_on c (a @ c # b) = a # split_on c b"
  by (induction a) auto

lemma split_on_join:
  "segs \<noteq> [] \<Longrightarrow> list_all (\<lambda>s. c \<notin> set s) segs \<Longrightarrow> split_on c (join_with [c] segs) = segs"
proof (induction segs)
  case Nil then show ?case by simp
next
  case (Cons x xs)
  show ?case
  proof (cases xs)
    case Nil
    with Cons.prems show ?thesis by (simp add: split_on_no_sep)
  next
    case (Cons y ys)
    with Cons.IH Cons.prems show ?thesis by (simp add: split_on_append)
  qed
qed

lemma split_on_general_append:
  "split_on c (a @ c # b) = split_on c a @ split_on c b"
  by (induction a) (auto split: list.splits simp: split_on_nonempty)

lemma split_on_elems: "list_all (\<lambda>s. c \<notin> set s) (split_on c p)"
  by (induction p) (auto split: if_splits list.splits)

lemma split_on_replicate:
  "split_on c (replicate k c @ s) = replicate k [] @ split_on c s"
  by (induction k) auto

lemma join_with_Cons: "ys \<noteq> [] \<Longrightarrow> join_with sep (x # ys) = x @ sep @ join_with sep ys"
  by (cases ys) auto

lemma join_with_snoc: "xs \<noteq> [] \<Longrightarrow> join_with sep (xs @ [y]) = join_with sep xs @ sep @ y"
  by (induction sep xs rule: join_with.induct) auto

lemma join_with_append:
  "xs \<noteq> [] \<Longrightarrow> ys \<noteq> [] \<Longrightarrow> join_with sep (xs @ ys) = join_with sep xs @ sep @ join_with sep ys"
  by (induction sep xs rule: join_with.induct) (auto simp: join_with_Cons)

lemma valid_plain: "valid_name n \<Longrightarrow> plain n"
  by (simp add: valid_name_def plain_def)

lemma valid_ends: "valid_name n \<Longrightarrow> n \<noteq> [] \<and> hd n \<noteq> CHR ''/'' \<and> last n \<noteq> CHR ''/''"
proof -
  assume v: "valid_name n"
  then have ne: "n \<noteq> []" by (simp add: valid_name_def)
  with v show ?thesis unfolding valid_name_def by (metis hd_in_set last_in_set)
qed

lemma norm_comps_append:
  "norm_comps ab acc (xs @ ys) = norm_comps ab (norm_comps ab acc xs) ys"
  by (induction xs arbitrary: acc) auto

lemma norm_comps_valid:
  "list_all valid_name ys \<Longrightarrow> norm_comps ab acc ys = acc @ ys"
  by (induction ys arbitrary: acc) (auto simp: valid_name_def)

lemma norm_comps_plain:
  "list_all plain acc \<Longrightarrow> list_all (\<lambda>x. CHR ''/'' \<notin> set x) parts
   \<Longrightarrow> list_all plain (norm_comps ab acc parts)"
proof (induction parts arbitrary: acc)
  case Nil then show ?case by simp
next
  case (Cons p ps)
  have b: "list_all plain (butlast acc)"
    using Cons.prems(1) by (auto simp: list_all_iff dest: in_set_butlastD)
  have "p \<noteq> [] \<Longrightarrow> plain p"
    using Cons.prems(2) by (simp add: plain_def)
  then have a: "p \<noteq> [] \<Longrightarrow> list_all plain (acc @ [p])"
    using Cons.prems(1) by simp
  have r: "list_all (\<lambda>x. CHR ''/'' \<notin> set x) ps" using Cons.prems(2) by simp
  show ?case using Cons.IH[OF b r] Cons.IH[OF a r] Cons.IH[OF Cons.prems(1) r]
    by auto
qed

lemma path_comps_join:
  assumes "list_all plain comps"
  shows "path_comps (replicate k CHR ''/'' @ join_with ''/'' comps) = comps"
proof (cases "comps = []")
  case True
  have "split_on CHR ''/'' (replicate k CHR ''/'' @ []) = replicate k [] @ [[]]"
    by (simp only: split_on_replicate split_on.simps)
  then show ?thesis using True by (simp add: path_comps_def)
next
  case False
  have "list_all (\<lambda>s. CHR ''/'' \<notin> set s) comps"
    using assms by (simp add: list_all_iff plain_def)
  then have "split_on CHR ''/'' (join_with ''/'' comps) = comps"
    using split_on_join[OF False, of "CHR ''/''"] by simp
  moreover have "filter (\<lambda>x. x \<noteq> []) comps = comps"
    using assms by (auto simp: plain_def filter_id_conv list_all_iff)
  ultimately show ?thesis by (simp add: path_comps_def split_on_replicate)
qed

lemma plain_join_nonempty:
  assumes "comps \<noteq> []" and "list_all plain comps"
  shows "join_with sep comps \<noteq> []"
proof (cases comps)
  case Nil with assms(1) show ?thesis by simp
next
  case (Cons x xs)
  with assms(2) have "x \<noteq> []" by (simp add: plain_def)
  with Cons show ?thesis by (cases xs) auto
qed

lemma path_comps_normpath:
  assumes "norm_comps (startswith p ''/'') [] (split_on CHR ''/'' p) \<noteq> []"
  shows "path_comps (normpath p) = norm_comps (startswith p ''/'') [] (split_on CHR ''/'' p)"
proof -
  let ?c = "norm_comps (startswith p ''/'') [] (split_on CHR ''/'' p)"
  have i: "(initial_slashes p \<noteq> 0) = startswith p ''/''"
    by (simp add: initial_slashes_def)
  have pl: "list_all plain ?c"
    by (rule norm_comps_plain) (simp_all add: split_on_elems)
  have ne: "p \<noteq> []" using assms by (cases p) auto
  have "join_with ''/'' ?c \<noteq> []" using plain_join_nonempty[OF assms pl] .
  then have "normpath p = replicate (initial_slashes p) CHR ''/'' @ join_with ''/'' ?c"
    using ne unfolding normpath_def Let_def i by simp
  then show ?thesis using path_comps_join[OF pl] by simp
qed

lemma startswith_slash: "startswith q ''/'' \<longleftrightarrow> (q \<noteq> [] \<and> hd q = CHR ''/'')"
  by (cases q) (auto simp: startswith_def)

lemma endswith_slash: "endswith q ''/'' \<longleftrightarrow> (q \<noteq> [] \<and> last q = CHR ''/'')"
proof (cases q rule: rev_cases)
  case Nil then show ?thesis by (simp add: endswith_def)
next
  case (snoc ys y) then show ?thesis by (auto simp: endswith_def)
qed

lemma join_valid_ends:
  "A \<noteq> [] \<Longrightarrow> list_all valid_name A
   \<Longrightarrow> join_with ''/'' A \<noteq> [] \<and> hd (join_with ''/'' A) \<noteq> CHR ''/''
       \<and> last (join_with ''/'' A) \<noteq> CHR ''/''"
proof (induction A)
  case Nil then show ?case by simp
next
  case (Cons x xs)
  then have x: "x \<noteq> []" "hd x \<noteq> CHR ''/''" "last x \<noteq> CHR ''/''"
    using valid_ends[of x] by auto
  show ?case
  proof (cases xs)
    case Nil with x show ?thesis by simp
  next
    case (Cons y ys)
    with Cons.IH Cons.prems x show ?thesis by simp
  qed
qed

lemma abspath_comps:
  assumes ne: "A \<noteq> []" and val: "list_all valid_name A"
  shows "path_comps (abspath cwd (join_with ''/'' A)) = cwd_comps cwd @ A"
proof -
  let ?p = "join_with ''/'' A"
  let ?q = "path_join cwd ?p"
  have p: "?p \<noteq> []" "\<not> startswith ?p ''/''"
    using join_valid_ends[OF ne val] by (auto simp: startswith_slash)
  have "list_all (\<lambda>s. CHR ''/'' \<notin> set s) A"
    using val by (simp add: list_all_iff valid_name_def)
  then have sp: "split_on CHR ''/'' ?p = A"
    using split_on_join[OF ne, of "CHR ''/''"] by simp
  have nv: "\<And>acc ab. norm_comps ab acc A = acc @ A"
    using norm_comps_valid[OF val] by simp
  have main: "norm_comps (startswith ?q ''/'') [] (split_on CHR ''/'' ?q) = cwd_comps cwd @ A"
  proof (cases "cwd = []")
    case True
    then have "?q = ?p" using p by (simp add: path_join_def)
    then show ?thesis using True p sp nv
      by (simp add: cwd_comps_def startswith_def)
  next
    case False
    have st: "startswith ?q ''/'' = startswith cwd ''/''"
      using False p by (auto simp: path_join_def startswith_slash)
    show ?thesis
    proof (cases "endswith cwd ''/''")
      case True
      then obtain c' where c': "cwd = c' @ ''/''"
        by (cases cwd rule: rev_cases) (auto simp: endswith_slash)
      have q: "?q = c' @ CHR ''/'' # ?p" using True p c' by (simp add: path_join_def)
      have "split_on CHR ''/'' ?q = split_on CHR ''/'' c' @ A"
        unfolding q by (simp only: split_on_general_append sp)
      moreover have "split_on CHR ''/'' cwd = split_on CHR ''/'' c' @ [[]]"
        unfolding c' using split_on_general_append[of "CHR ''/''" c' "[]"] by simp
      ultimately show ?thesis
        unfolding st cwd_comps_def by (simp add: norm_comps_append nv)
    next
      case nend: False
      have q: "?q = cwd @ CHR ''/'' # ?p" using nend False p by (simp add: path_join_def)
      have "split_on CHR ''/'' ?q = split_on CHR ''/'' cwd @ A"
        unfolding q by (simp only: split_on_general_append sp)
      then show ?thesis
        unfolding st cwd_comps_def by (simp add: norm_comps_append nv)
    qed
  qed
  then have "norm_comps (startswith ?q ''/'') [] (split_on CHR ''/'' ?q) \<noteq> []"
    using ne by simp
  from path_comps_normpath[OF this] main show ?thesis
    using p by (simp add: abspath_def)
qed

lemma lcp_same: "longest_common_prefix xs (xs @ ys) = xs"
  by (induction xs) auto

lemma path_join_valid:
  "a \<noteq> [] \<Longrightarrow> last a \<noteq> CHR ''/'' \<Longrightarrow> valid_name b \<Longrightarrow> path_join a b = a @ ''/'' @ b"
  using valid_ends[of b] by (auto simp: path_join_def startswith_slash endswith_slash)

lemma foldl_path_join:
  "list_all valid_name (a # bs) \<Longrightarrow> foldl path_join a bs = join_with ''/'' (a # bs)"
proof (induction bs rule: rev_induct)
  case Nil then show ?case by simp
next
  case (snoc b bs)
  then have v: "valid_name b" and vs: "list_all valid_name (a # bs)" by simp_all
  have j: "join_with ''/'' (a # bs) \<noteq> []" "last (join_with ''/'' (a # bs)) \<noteq> CHR ''/''"
    using join_valid_ends[OF _ vs] by simp_all
  have "foldl path_join a (bs @ [b]) = path_join (join_with ''/'' (a # bs)) b"
    using snoc.IH vs by simp
  also have "\<dots> = join_with ''/'' (a # bs) @ ''/'' @ b"
    using path_join_valid[OF j v] .
  also have "\<dots> = join_with ''/'' ((a # bs) @ [b])"
    by (subst join_with_snoc) auto
  finally show ?case by simp
qed

lemma path_join_all_valid:
  "list_all valid_name B \<Longrightarrow> path_join_all B = join_with ''/'' B"
proof (cases B)
  case Nil then show ?thesis by simp
next
  case (Cons b bs)
  assume "list_all valid_name B"
  with Cons show ?thesis using foldl_path_join[of b bs] by simp
qed

lemma relpath_under:
  assumes "A \<noteq> []" "B \<noteq> []" "list_all valid_name A" "list_all valid_name B"
  shows "relpath cwd (join_with ''/'' (A @ B)) (join_with ''/'' A) = Inr (join_with ''/'' B)"
proof -
  have ab: "A @ B \<noteq> []" "list_all valid_name (A @ B)" using assms by auto
  have 1: "path_comps (abspath cwd (join_with ''/'' A)) = cwd_comps cwd @ A"
    using abspath_comps[OF assms(1,3)] .
  have 2: "path_comps (abspath cwd (join_with ''/'' (A @ B))) = (cwd_comps cwd @ A) @ B"
    using abspath_comps[OF ab] by simp
  have ne: "join_with ''/'' (A @ B) \<noteq> []" using join_valid_ends[OF ab] by simp
  show ?thesis
    unfolding relpath_def 1 2 Let_def lcp_same
    using ne assms(2) path_join_all_valid[OF assms(4)] by simp
qed

section \<open>Properties of the generator\<close>

lemma path_join_join:
  assumes "A \<noteq> []" "list_all valid_name A" "valid_name b"
  shows "path_join (join_with ''/'' A) b = join_with ''/'' (A @ [b])"
  using path_join_valid[OF _ _ assms(3)] join_valid_ends[OF assms(1,2)]
  by (simp add: join_with_snoc[OF assms(1)])

lemma foldl_path_join_join:
  "A \<noteq> [] \<Longrightarrow> list_all valid_name A \<Longrightarrow> list_all valid_name bs
   \<Longrightarrow> foldl path_join (join_with ''/'' A) bs = join_with ''/'' (A @ bs)"
proof (induction bs arbitrary: A)
  case Nil then show ?case by simp
next
  case (Cons b bs)
  have "foldl path_join (join_with ''/'' A) (b # bs) = foldl path_join (join_with ''/'' (A @ [b])) bs"
    using path_join_join[OF Cons.prems(1,2)] Cons.prems(3) by simp
  also have "\<dots> = join_with ''/'' ((A @ [b]) @ bs)"
    using Cons.prems by (intro Cons.IH) simp_all
  finally show ?case by simp
qed

lemma base_dir_join: "base_dir = join_with ''/'' [''app'', ''routes'']"
  by (simp add: base_dir_def)

lemma valid_app: "list_all valid_name [''app'', ''routes'']" "list_all valid_name [''app'']"
  by (simp_all add: valid_name_def)

lemma full_path_eq:
  assumes "list_all valid_name ds" "valid_name file"
  shows "path_join (dir_root ds) file = join_with ''/'' ([''app'', ''routes''] @ ds @ [file])"
proof -
  have "dir_root ds = join_with ''/'' ([''app'', ''routes''] @ ds)"
    unfolding dir_root_def base_dir_join
    using foldl_path_join_join[OF _ valid_app(1) assms(1)] by simp
  then show ?thesis
    using path_join_join[of "[''app'', ''routes''] @ ds" "file"] assms valid_app(1)
    by simp
qed

lemma rel_path_eq:
  assumes "list_all valid_name ds" "valid_name file"
  shows "relpath cwd (path_join (dir_root ds) file) ''app''
           = Inr (join_with ''/'' (''routes'' # ds @ [file]))"
proof -
  have v: "list_all valid_name (''routes'' # ds @ [file])"
    using assms by (simp add: valid_name_def)
  have "relpath cwd (join_with ''/'' ([''app''] @ (''routes'' # ds @ [file]))) (join_with ''/'' [''app''])
          = Inr (join_with ''/'' (''routes'' # ds @ [file]))"
    by (rule relpath_under[OF _ _ valid_app(2) v]) simp_all
  then show ?thesis unfolding full_path_eq[OF assms] by simp
qed

lemma path_rel_eq:
  assumes "list_all valid_name ds" "valid_name file"
  shows "relpath cwd (path_join (dir_root ds) file) base_dir = Inr (join_with ''/'' (ds @ [file]))"
proof -
  have v: "list_all valid_name (ds @ [file])" using assms by simp
  have "relpath cwd (join_with ''/'' ([''app'', ''routes''] @ (ds @ [file]))) (join_with ''/'' [''app'', ''routes''])
          = Inr (join_with ''/'' (ds @ [file]))"
    by (rule relpath_under[OF _ _ valid_app(1) v]) simp_all
  then show ?thesis unfolding full_path_eq[OF assms] base_dir_join by simp
qed

lemma segments_eq:
  assumes "list_all valid_name segs" "segs \<noteq> []"
  shows "(if CHR ''/'' \<in> set (join_with ''/'' segs) then split_on CHR ''/'' (join_with ''/'' segs)
          else [join_with ''/'' segs]) = segs"
proof -
  have "list_all (\<lambda>s. CHR ''/'' \<notin> set s) segs"
    using assms(1) by (simp add: list_all_iff valid_name_def)
  then have "split_on CHR ''/'' (join_with ''/'' segs) = segs"
    using split_on_join[OF assms(2), of "CHR ''/''"] by simp
  then show ?thesis using split_on_no_sep[of "CHR ''/''" "join_with ''/'' segs"] by auto
qed

lemma route_segments_eq:
  assumes "list_all valid_name ds" "valid_name file"
  shows "route_segments (join_with ''/'' (ds @ [file])) =
           Inr (if index_like file then ds
                else if endswith file ''.tsx'' then ds @ [strip_ext file]
                else ds @ [file])"
proof -
  have "list_all valid_name (ds @ [file])" "ds @ [file] \<noteq> []" using assms by simp_all
  from segments_eq[OF this] show ?thesis
    unfolding route_segments_def Let_def by (simp add: strip_ext_def)
qed

lemma route_entry_eq:
  assumes "list_all valid_name ds" "valid_name file" "endswith file ''.tsx''"
  shows "route_entry cwd (dir_root ds) file = Inr (registration_line ds file)"
proof -
  have u: "url_path_of (join_with ''/'' (ds @ [file])) =
             Inr (join_with ''/'' (url_segments (if index_like file then ds else ds @ [strip_ext file])))"
    using assms(3) by (simp add: url_path_of_def route_segments_eq[OF assms(1,2)])
  show ?thesis
    by (simp add: route_entry_def Let_def rel_path_eq[OF assms(1,2)] path_rel_eq[OF assms(1,2)] u
      registration_line_def index_line_def route_line_def del: join_with.simps)
qed

lemma valid_tree_file_names: "valid_tree es \<Longrightarrow> list_all valid_name (file_names es)"
  by (induction es rule: file_names.induct) auto

lemma lines_under_append: "lines_under ds (xs @ ys) = lines_under ds xs @ lines_under ds ys"
  by (simp add: lines_under_def qualifying_def)

lemma lines_under_nest:
  "lines_under ds (map (\<lambda>(d, f). (n # d, f)) fs) = lines_under (ds @ [n]) fs"
  by (induction fs) (auto simp: lines_under_def qualifying_def)

lemma files_loop_eq:
  "list_all valid_name ds \<Longrightarrow> list_all valid_name files \<Longrightarrow>
   files_loop cwd (dir_root ds) files routes = Inr (routes @ lines_under ds (map (Pair []) files))"
proof (induction files arbitrary: routes)
  case Nil then show ?case by (simp add: lines_under_def qualifying_def)
next
  case (Cons f fs)
  then have v: "valid_name f" and vs: "list_all valid_name fs" by simp_all
  show ?case
  proof (cases "endswith f ''.tsx''")
    case True
    from route_entry_eq[OF Cons.prems(1) v True, of cwd] Cons.IH[OF Cons.prems(1) vs] True
    show ?thesis by (simp add: lines_under_def qualifying_def)
  next
    case False
    with Cons.IH[OF Cons.prems(1) vs] show ?thesis by (simp add: lines_under_def qualifying_def)
  qed
qed

lemma dir_root_snoc: "dir_root (ds @ [n]) = path_join (dir_root ds) n"
  by (simp add: dir_root_def)

lemma walk_loop_walk:
  "(\<forall>ds routes rest. root = dir_root ds \<longrightarrow> list_all valid_name ds \<longrightarrow> valid_tree es \<longrightarrow>
      walk_loop cwd (map Yield (walk root es) @ rest) routes
        = walk_loop cwd rest (routes @ lines_under ds (tree_files es)))
   \<and>
   (\<forall>ds routes rest. root = dir_root ds \<longrightarrow> list_all valid_name ds \<longrightarrow> valid_tree es \<longrightarrow>
      walk_loop cwd (map Yield (walk_subdirs root es) @ rest) routes
        = walk_loop cwd rest (routes @ lines_under ds (nested_files es)))"
  (is "?P root es \<and> ?Q root es")
proof -
  have "(\<lambda>root es. ?P root es) root es" "(\<lambda>root es. ?Q root es) root es"
  proof (induction root es and root es rule: walk_walk_subdirs.induct)
    case (1 root es)
    show ?case
    proof (intro allI impI)
      fix ds routes rest
      assume r: "root = dir_root ds" and v: "list_all valid_name ds" and t: "valid_tree es"
      have f: "files_loop cwd root (file_names es) routes
                 = Inr (routes @ lines_under ds (map (Pair []) (file_names es)))"
        unfolding r using files_loop_eq[OF v valid_tree_file_names[OF t]] .
      show "walk_loop cwd (map Yield (walk root es) @ rest) routes
              = walk_loop cwd rest (routes @ lines_under ds (tree_files es))"
        using "1.IH" r v t f by (simp add: lines_under_append)
    qed
  next
    case (2 root)
    show ?case by (simp add: lines_under_def qualifying_def)
  next
    case (3 root n c es)
    then show ?case by simp
  next
    case (4 root n d es)
    show ?case
    proof (intro allI impI)
      fix ds routes rest
      assume r: "root = dir_root ds" and v: "list_all valid_name ds"
        and t: "valid_tree ((n, Dir d) # es)"
      have r': "path_join root n = dir_root (ds @ [n])" by (simp add: r dir_root_snoc)
      have v': "list_all valid_name (ds @ [n])" using v t by simp
      have "walk_loop cwd (map Yield (walk (path_join root n) d) @ (map Yield (walk_subdirs root es) @ rest)) routes
             = walk_loop cwd (map Yield (walk_subdirs root es) @ rest) (routes @ lines_under (ds @ [n]) (tree_files d))"
        using "4.IH"(1) r' v' t by (simp del: walk.simps tree_files.simps)
      also have "\<dots> = walk_loop cwd rest ((routes @ lines_under (ds @ [n]) (tree_files d)) @ lines_under ds (nested_files es))"
        using "4.IH"(2) r v t by (simp del: walk.simps tree_files.simps)
      finally show "walk_loop cwd (map Yield (walk_subdirs root ((n, Dir d) # es)) @ rest) routes
              = walk_loop cwd rest (routes @ lines_under ds (nested_files ((n, Dir d) # es)))"
        by (simp add: lines_under_append lines_under_nest del: walk.simps tree_files.simps)
    qed
  qed
  then show ?thesis by simp
qed

lemma walk_loop_tree:
  "valid_tree es \<Longrightarrow>
   walk_loop cwd (map Yield (walk base_dir es)) [] = Inr (lines_under [] (tree_files es))"
  using walk_loop_walk[of base_dir es cwd, THEN conjunct1, rule_format, of "[]" "[]" "[]"]
  by (simp add: dir_root_def del: walk.simps tree_files.simps)

lemma endswith_nonempty: "endswith f ''.tsx'' \<Longrightarrow> f \<noteq> []"
  by (auto simp: endswith_def)

lemma path_join_nonempty: "b \<noteq> [] \<Longrightarrow> path_join a b \<noteq> []"
  by (simp add: path_join_def)

lemma relpath_total: "p \<noteq> [] \<Longrightarrow> \<exists>r. relpath cwd p start = Inr r"
  by (simp add: relpath_def Let_def)

lemma url_path_of_total: "\<exists>u. url_path_of p = Inr u"
  by (simp add: url_path_of_def route_segments_def Let_def split_on_nonempty)

lemma route_entry_total:
  assumes "endswith file ''.tsx''"
  shows "\<exists>line. route_entry cwd root file = Inr line"
proof -
  have ne: "path_join root file \<noteq> []"
    using assms by (intro path_join_nonempty endswith_nonempty)
  obtain r1 where r1: "relpath cwd (path_join root file) ''app'' = Inr r1"
    using relpath_total[OF ne] by blast
  obtain r2 where r2: "relpath cwd (path_join root file) base_dir = Inr r2"
    using relpath_total[OF ne] by blast
  obtain u where u: "url_path_of r2 = Inr u" using url_path_of_total by blast
  show ?thesis by (simp add: route_entry_def Let_def r1 r2 u)
qed

lemma route_entry_line_of:
  "endswith file ''.tsx'' \<Longrightarrow> route_entry cwd root file = Inr (line_of cwd (root, file))"
  using route_entry_total[of "file" cwd root] by (auto simp: line_of_def)

lemma files_loop_lines:
  "files_loop cwd root files routes =
     Inr (routes @ map (line_of cwd) (map (Pair root) (filter (\<lambda>f. endswith f ''.tsx'') files)))"
  by (induction files arbitrary: routes) (simp_all add: route_entry_line_of)

lemma walk_loop_lines:
  "walk_loop cwd (map Yield items) routes = Inr (routes @ map (line_of cwd) (tsx_files_of items))"
proof (induction items arbitrary: routes)
  case Nil then show ?case by (simp add: tsx_files_of_def)
next
  case (Cons it items)
  obtain root dirs files where it: "it = (root, dirs, files)" by (cases it)
  show ?case using Cons.IH by (simp add: it files_loop_lines tsx_files_of_def)
qed

lemma walk_loop_raised:
  "walk_loop cwd evs routes =
     (case raised evs of Some e \<Rightarrow> Inl e
      | None \<Rightarrow> Inr (routes @ map (line_of cwd) (tsx_files_of (yielded evs))))"
proof (induction evs arbitrary: routes rule: raised.induct)
  case 1 then show ?case by (simp add: tsx_files_of_def)
next
  case (2 e evs) then show ?case by simp
next
  case (3 item evs)
  obtain root dirs files where it: "item = (root, dirs, files)" by (cases item)
  show ?case unfolding it
    by (simp add: files_loop_lines "3.IH" tsx_files_of_def split: option.splits)
qed

lemma sort_mset_eq: "mset xs = mset ys \<Longrightarrow> sort xs = sort (ys :: string list)"
  by (rule properties_for_sort) simp_all

lemma sorted_adjacent: "sorted (ls :: string list) \<Longrightarrow> Suc i < length ls \<Longrightarrow> ls ! i \<le> ls ! Suc i"
  by (simp add: sorted_iff_nth_Suc)

lemma lines_under_Nil:
  "lines_under [] fs = map (\<lambda>(ds, f). registration_line ds f) (qualifying fs)"
  by (simp add: lines_under_def)


lemma url_segments_append: "url_segments (xs @ ys) = url_segments xs @ url_segments ys"
  by (induction xs) auto

lemma index_like_valid: "index_like f \<Longrightarrow> valid_name f \<and> endswith f ''.tsx''"
  by (auto simp: index_like_def valid_name_def endswith_def)


lemma dir_root_a: "dir_root [''a''] = ''app/routes/a''"
  by (simp add: dir_root_def base_dir_def path_join_def startswith_def endswith_def)

lemma dir_root_Nil: "dir_root [] = base_dir"
  by (simp add: dir_root_def)

lemma generate_eq:
  "generate encodable cwd evs out =
     (case raised evs of Some e \<Rightarrow> (Some e, out)
      | None \<Rightarrow>
          if encodable (header
               @ join_with [CHR 0x0A] (sort (map (line_of cwd) (tsx_files_of (yielded evs)))) @ footer)
          then (None, Some (header
               @ join_with [CHR 0x0A] (sort (map (line_of cwd) (tsx_files_of (yielded evs)))) @ footer))
          else (Some UnicodeEncodeError, Some []))"
  by (simp add: generate_def walk_loop_raised content_of_def split: option.splits)

lemma utf8_valid_ascii:
  "list_all (in_range 0x00 0x7F) xs \<Longrightarrow> utf8_valid (xs @ ys) = utf8_valid ys"
  by (induction xs) auto

lemma utf8_valid_ascii_only: "list_all (in_range 0x00 0x7F) xs \<Longrightarrow> utf8_valid xs"
  using utf8_valid_ascii[of xs "[]"] by simp

lemma line_of_valid:
  "list_all valid_name ds \<Longrightarrow> valid_name f \<Longrightarrow> endswith f ''.tsx''
   \<Longrightarrow> line_of cwd (dir_root ds, f) = registration_line ds f"
  by (simp add: line_of_def route_entry_eq)

section \<open>Properties of the file system operations and of the renamer\<close>

lemma root_of_snoc: "root_of base (ds @ [n]) = path_join (root_of base ds) n"
  by (simp add: root_of_def)

lemma root_of_Nil: "root_of base [] = base"
  by (simp add: root_of_def)

lemma root_of_ok:
  "base_ok base \<Longrightarrow> list_all valid_name ds \<Longrightarrow> base_ok (root_of base ds)"
proof (induction ds rule: rev_induct)
  case Nil then show ?case by (simp add: root_of_def)
next
  case (snoc d ds)
  then have ok: "base_ok (root_of base ds)" and v: "valid_name d" by simp_all
  have "path_join (root_of base ds) d = root_of base ds @ ''/'' @ d"
    using path_join_valid[OF _ _ v] ok by (simp add: base_ok_def)
  then show ?case using valid_ends[OF v] by (simp add: root_of_snoc base_ok_def)
qed

lemma root_of_join:
  assumes "base_ok base" "list_all valid_name ds" "ds \<noteq> []"
  shows "root_of base ds = base @ ''/'' @ join_with ''/'' ds"
  using assms(2,3)
proof (induction ds rule: rev_induct)
  case Nil then show ?case by simp
next
  case (snoc d ds)
  then have v: "valid_name d" and vs: "list_all valid_name ds" by simp_all
  have ok: "base_ok (root_of base ds)" using root_of_ok[OF assms(1) vs] .
  have pj: "path_join (root_of base ds) d = root_of base ds @ ''/'' @ d"
    using path_join_valid[OF _ _ v] ok by (simp add: base_ok_def)
  show ?case
  proof (cases "ds = []")
    case True then show ?thesis using pj by (simp add: root_of_def)
  next
    case False
    then show ?thesis using snoc.IH[OF vs False] pj
      by (simp add: root_of_snoc join_with_snoc)
  qed
qed

lemma resolve_root_of:
  assumes "base_ok base" "list_all valid_name ds" "ds \<noteq> []"
  shows "resolve base (root_of base ds) = Some ds"
proof -
  have "list_all (\<lambda>s. CHR ''/'' \<notin> set s) ds"
    using assms(2) by (simp add: list_all_iff valid_name_def)
  then have "split_on CHR ''/'' (join_with ''/'' ds) = ds"
    using split_on_join[OF assms(3), of "CHR ''/''"] by simp
  then show ?thesis
    unfolding root_of_join[OF assms] by (simp add: resolve_def startswith_def)
qed

lemma rfind_slash_file:
  "CHR ''/'' \<notin> set f \<Longrightarrow> rfind_slash (X @ CHR ''/'' # f) = Suc (length X)"
proof -
  assume "CHR ''/'' \<notin> set f"
  then have "takeWhile (\<lambda>c. c \<noteq> CHR ''/'') (rev f @ CHR ''/'' # rev X) = rev f"
    by (subst takeWhile_append2) auto
  then show ?thesis by (simp add: rfind_slash_def)
qed

lemma rstrip_slashes_id: "p \<noteq> [] \<Longrightarrow> last p \<noteq> CHR ''/'' \<Longrightarrow> rstrip_slashes p = p"
  by (cases p rule: rev_cases) (auto simp: rstrip_slashes_def)

lemma dirname_file:
  assumes "base_ok X" "valid_name f"
  shows "dirname (X @ CHR ''/'' # f) = X"
proof -
  have nf: "CHR ''/'' \<notin> set f" using assms(2) by (simp add: valid_name_def)
  have X: "X \<noteq> []" "last X \<noteq> CHR ''/''" using assms(1) by (simp_all add: base_ok_def)
  have h: "take (rfind_slash (X @ CHR ''/'' # f)) (X @ CHR ''/'' # f) = X @ ''/''"
    by (simp add: rfind_slash_file[OF nf])
  have "X @ ''/'' \<noteq> replicate (length (X @ ''/'')) CHR ''/''"
  proof
    assume "X @ ''/'' = replicate (length (X @ ''/'')) CHR ''/''"
    then have "set (X @ ''/'') \<subseteq> {CHR ''/''}" by (metis set_replicate_conv_if empty_subsetI subset_refl)
    moreover have "last X \<in> set X" using X(1) by simp
    ultimately show False using X(2) by auto
  qed
  moreover have "rstrip_slashes (X @ ''/'') = X"
    using X by (cases X rule: rev_cases) (auto simp: rstrip_slashes_def)
  ultimately show ?thesis unfolding dirname_def h Let_def by simp
qed

lemma basename_file:
  assumes "valid_name f"
  shows "basename (rstrip_slashes (X @ CHR ''/'' # f)) = f"
proof -
  have nf: "CHR ''/'' \<notin> set f" using assms by (simp add: valid_name_def)
  have "rstrip_slashes (X @ CHR ''/'' # f) = X @ CHR ''/'' # f"
    using valid_ends[OF assms] by (intro rstrip_slashes_id) auto
  then show ?thesis by (simp add: basename_def rfind_slash_file[OF nf])
qed

lemma path_join_root_of:
  assumes "base_ok base" "list_all valid_name ds" "valid_name f"
  shows "path_join (root_of base ds) f = root_of base ds @ CHR ''/'' # f"
  using path_join_valid[OF _ _ assms(3)] root_of_ok[OF assms(1,2)] by (simp add: base_ok_def)

lemma find_in_files_eq:
  "find_in_files root files matches =
     matches @ map (path_join root) (filter (\<lambda>f. f = ''_index.tsx'') files)"
  by (induction files arbitrary: matches) auto

lemma matches_of_append: "matches_of base (xs @ ys) = matches_of base xs @ matches_of base ys"
  by (simp add: matches_of_def)

lemma find_in_walk_append:
  "find_in_walk (xs @ ys) matches = find_in_walk ys (find_in_walk xs matches)"
  by (induction xs arbitrary: matches) auto

lemma find_in_walk_tree:
  "(\<forall>ds matches. root = root_of base ds \<longrightarrow>
      find_in_walk (walk root es) matches
        = matches @ matches_of base (map (\<lambda>(d, f). (ds @ d, f)) (tree_files es)))
   \<and>
   (\<forall>ds matches. root = root_of base ds \<longrightarrow>
      find_in_walk (walk_subdirs root es) matches
        = matches @ matches_of base (map (\<lambda>(d, f). (ds @ d, f)) (nested_files es)))"
  (is "?P root es \<and> ?Q root es")
proof -
  have "(\<lambda>root es. ?P root es) root es" "(\<lambda>root es. ?Q root es) root es"
  proof (induction root es and root es rule: walk_walk_subdirs.induct)
    case (1 root es)
    show ?case
    proof (intro allI impI)
      fix ds matches
      assume r: "root = root_of base ds"
      have f: "find_in_files root (file_names es) matches
                 = matches @ matches_of base (map (\<lambda>(d, f). (ds @ d, f)) (map (Pair []) (file_names es)))"
        by (simp add: find_in_files_eq matches_of_def r filter_map comp_def)
      show "find_in_walk (walk root es) matches
              = matches @ matches_of base (map (\<lambda>(d, f). (ds @ d, f)) (tree_files es))"
        using "1.IH" r f by (simp add: matches_of_append)
    qed
  next
    case (2 root)
    show ?case by (simp add: matches_of_def)
  next
    case (3 root n c es)
    then show ?case by simp
  next
    case (4 root n d es)
    show ?case
    proof (intro allI impI)
      fix ds matches
      assume r: "root = root_of base ds"
      have r': "path_join root n = root_of base (ds @ [n])" by (simp add: r root_of_snoc)
      have "find_in_walk (walk (path_join root n) d @ walk_subdirs root es) matches
             = find_in_walk (walk_subdirs root es)
                 (matches @ matches_of base (map (\<lambda>(d, f). ((ds @ [n]) @ d, f)) (tree_files d)))"
        using "4.IH"(1) r' by (simp add: find_in_walk_append del: walk.simps tree_files.simps)
      also have "\<dots> = (matches @ matches_of base (map (\<lambda>(d, f). ((ds @ [n]) @ d, f)) (tree_files d)))
                    @ matches_of base (map (\<lambda>(d, f). (ds @ d, f)) (nested_files es))"
        using "4.IH"(2) r by (simp del: walk.simps tree_files.simps)
      finally show "find_in_walk (walk_subdirs root ((n, Dir d) # es)) matches
              = matches @ matches_of base (map (\<lambda>(d, f). (ds @ d, f)) (nested_files ((n, Dir d) # es)))"
        by (simp add: matches_of_append comp_def case_prod_unfold del: walk.simps tree_files.simps)
    qed
  qed
  then show ?thesis by simp
qed

lemma find_files_eq: "find_files base es = matches_of base (tree_files es)"
  using find_in_walk_tree[of base base es, THEN conjunct1, rule_format, of "[]" "[]"]
  by (simp add: find_files_def root_of_Nil del: walk.simps tree_files.simps)

lemma distinct_names_fst: "distinct_names es \<Longrightarrow> distinct (map fst es)"
  by (induction es rule: distinct_names.induct) auto

lemma distinct_names_sub: "distinct_names es \<Longrightarrow> (n, Dir d) \<in> set es \<Longrightarrow> distinct_names d"
  by (induction es rule: distinct_names.induct) auto

lemma valid_tree_sub: "valid_tree es \<Longrightarrow> (n, Dir d) \<in> set es \<Longrightarrow> valid_tree d"
  by (induction es rule: valid_tree.induct) auto

lemma valid_tree_names: "valid_tree es \<Longrightarrow> (n, x) \<in> set es \<Longrightarrow> valid_name n"
  by (induction es rule: valid_tree.induct) auto

lemma set_file_names: "set (file_names es) = {f. \<exists>c. (f, File c) \<in> set es}"
  by (induction es rule: file_names.induct) auto

lemma set_nested_files:
  "set (nested_files es) = {(n # ns, f) | n ns f d. (n, Dir d) \<in> set es \<and> (ns, f) \<in> set (tree_files d)}"
  by (induction es rule: file_names.induct) (auto simp del: tree_files.simps)

lemma set_tree_files:
  "set (tree_files es) = {([], f) | f. \<exists>c. (f, File c) \<in> set es}
     \<union> {(n # ns, f) | n ns f d. (n, Dir d) \<in> set es \<and> (ns, f) \<in> set (tree_files d)}"
  unfolding tree_files.simps[of es] set_append set_nested_files
  by (auto simp: set_file_names simp del: tree_files.simps)

lemma file_at_Cons:
  "p \<noteq> [] \<Longrightarrow> file_at es (n # p) = (case map_of es n of Some (Dir d) \<Rightarrow> file_at d p | _ \<Rightarrow> None)"
  by (simp add: file_at_def split: option.splits node.splits)

lemma file_at_single:
  "file_at es [n] = (case map_of es n of Some (File c) \<Rightarrow> Some c | _ \<Rightarrow> None)"
  by (simp add: file_at_def split: option.splits node.splits)

lemma file_at_Nil: "file_at es [] = None"
  by (simp add: file_at_def)

lemma tree_files_file_at:
  "distinct_names es \<Longrightarrow> ((ds, f) \<in> set (tree_files es)) = (file_at es (ds @ [f]) \<noteq> None)"
proof (induction ds arbitrary: es)
  case Nil
  have d: "distinct (map fst es)" using Nil by (rule distinct_names_fst)
  have "(([], f) \<in> set (tree_files es)) = (\<exists>c. (f, File c) \<in> set es)"
    by (subst set_tree_files) auto
  also have "\<dots> = (\<exists>c. map_of es f = Some (File c))" using d by simp
  also have "\<dots> = (file_at es ([] @ [f]) \<noteq> None)"
    by (auto simp: file_at_def split: option.splits node.splits)
  finally show ?case .
next
  case (Cons n ns)
  have d: "distinct (map fst es)" using Cons.prems by (rule distinct_names_fst)
  have "((n # ns, f) \<in> set (tree_files es)) = (\<exists>d. (n, Dir d) \<in> set es \<and> (ns, f) \<in> set (tree_files d))"
    by (subst set_tree_files) auto
  also have "\<dots> = (\<exists>d. (n, Dir d) \<in> set es \<and> file_at d (ns @ [f]) \<noteq> None)"
    using Cons.IH distinct_names_sub[OF Cons.prems] by blast
  also have "\<dots> = (\<exists>d. map_of es n = Some (Dir d) \<and> file_at d (ns @ [f]) \<noteq> None)"
    using d by simp
  also have "\<dots> = (file_at es ((n # ns) @ [f]) \<noteq> None)"
    by (cases "map_of es n") (auto simp: file_at_Cons split: node.splits)
  finally show ?case .
qed

lemma tree_files_valid:
  "valid_tree es \<Longrightarrow> (ds, f) \<in> set (tree_files es) \<Longrightarrow> list_all valid_name ds \<and> valid_name f"
proof (induction ds arbitrary: es)
  case Nil
  then have "\<exists>c. (f, File c) \<in> set es" by (subst (asm) set_tree_files) auto
  then show ?case using valid_tree_names[OF Nil.prems(1)] by auto
next
  case (Cons n ns)
  then obtain d where d: "(n, Dir d) \<in> set es" "(ns, f) \<in> set (tree_files d)"
    by (subst (asm) set_tree_files) auto
  from Cons.IH[OF valid_tree_sub[OF Cons.prems(1) d(1)] d(2)]
    valid_tree_names[OF Cons.prems(1) d(1)]
  show ?case by simp
qed

lemma dir_at_Nil: "dir_at es [] = True"
  by (simp add: dir_at_def)

lemma dir_at_Cons:
  "dir_at es (n # p) = (case map_of es n of Some (Dir d) \<Rightarrow> dir_at d p | _ \<Rightarrow> False)"
  by (simp add: dir_at_def split: option.splits node.splits)

lemma file_at_put_other:
  "p \<noteq> q \<Longrightarrow> file_at (put_file q c es) p = file_at es p"
proof (induction q c es arbitrary: p rule: put_file.induct)
  case (1 c es) then show ?case by simp
next
  case (2 n c es)
  show ?case
  proof (cases p)
    case Nil then show ?thesis by (simp add: file_at_Nil)
  next
    case (Cons k ks)
    show ?thesis
    proof (cases "ks = []")
      case True
      with Cons "2.prems" have "k \<noteq> n" by simp
      then show ?thesis using Cons True
        by (simp add: file_at_single update_conv' split: option.splits node.splits)
    next
      case False
      then show ?thesis using Cons
        by (auto simp: file_at_Cons update_conv' split: option.splits node.splits)
    qed
  qed
next
  case (3 n m ns c es)
  show ?case
  proof (cases p)
    case Nil then show ?thesis by (simp add: file_at_Nil)
  next
    case (Cons k ks)
    show ?thesis
    proof (cases "ks = []")
      case True
      then show ?thesis using Cons
        by (auto simp: file_at_single update_conv' split: option.splits node.splits)
    next
      case False
      show ?thesis
      proof (cases "map_of es n")
        case None then show ?thesis by simp
      next
        case (Some x)
        show ?thesis
        proof (cases x)
          case (File c') with Some show ?thesis by simp
        next
          case (Dir d)
          show ?thesis
          proof (cases "k = n")
            case True
            then have "ks \<noteq> m # ns" using "3.prems" Cons by simp
            from "3.IH"[OF Some Dir this] show ?thesis
              using Some Dir Cons True False by (simp add: file_at_Cons update_conv')
          next
            case kn: False
            then show ?thesis using Some Dir Cons False by (simp add: file_at_Cons update_conv')
          qed
        qed
      qed
    qed
  qed
qed

lemma file_at_remove:
  "file_at (remove_file q es) p = (if p = q then None else file_at es p)"
proof (induction q es arbitrary: p rule: remove_file.induct)
  case (1 es) then show ?case by (simp add: file_at_Nil)
next
  case (2 n es)
  show ?case
  proof (cases p)
    case Nil then show ?thesis by (simp add: file_at_Nil)
  next
    case (Cons k ks)
    show ?thesis
    proof (cases "ks = []")
      case True
      then show ?thesis using Cons
        by (auto simp: file_at_single delete_conv' split: option.splits node.splits)
    next
      case False
      then show ?thesis using Cons
        by (auto simp: file_at_Cons delete_conv' split: option.splits node.splits)
    qed
  qed
next
  case (3 n m ns es)
  show ?case
  proof (cases p)
    case Nil then show ?thesis by (simp add: file_at_Nil)
  next
    case (Cons k ks)
    show ?thesis
    proof (cases "ks = []")
      case True
      then show ?thesis using Cons
        by (auto simp: file_at_single update_conv' split: option.splits node.splits)
    next
      case False
      show ?thesis
      proof (cases "map_of es n")
        case None then show ?thesis using Cons False by (auto simp: file_at_Cons)
      next
        case (Some x)
        show ?thesis
        proof (cases x)
          case (File c') with Some show ?thesis using Cons False by (auto simp: file_at_Cons)
        next
          case (Dir d)
          from "3.IH"[OF Some Dir, of ks] show ?thesis
            using Some Dir Cons False by (auto simp: file_at_Cons update_conv')
        qed
      qed
    qed
  qed
qed

lemma dir_at_put: "dir_at (put_file q c es) p = dir_at es p"
proof (induction q c es arbitrary: p rule: put_file.induct)
  case (1 c es) then show ?case by simp
next
  case (2 n c es)
  show ?case
    by (cases p) (auto simp: dir_at_Nil dir_at_Cons update_conv' split: option.splits node.splits)
next
  case (3 n m ns c es)
  show ?case
  proof (cases p)
    case Nil then show ?thesis by (simp add: dir_at_Nil)
  next
    case (Cons k ks)
    show ?thesis
    proof (cases "map_of es n")
      case None then show ?thesis by simp
    next
      case (Some x)
      show ?thesis
      proof (cases x)
        case (File c') with Some show ?thesis by simp
      next
        case (Dir d)
        from "3.IH"[OF Some Dir, of ks] show ?thesis
          using Some Dir Cons by (auto simp: dir_at_Cons update_conv')
      qed
    qed
  qed
qed

lemma dir_at_remove: "dir_at (remove_file q es) p = dir_at es p"
proof (induction q es arbitrary: p rule: remove_file.induct)
  case (1 es) then show ?case by simp
next
  case (2 n es)
  show ?case
    by (cases p) (auto simp: dir_at_Nil dir_at_Cons delete_conv' split: option.splits node.splits)
next
  case (3 n m ns es)
  show ?case
  proof (cases p)
    case Nil then show ?thesis by (simp add: dir_at_Nil)
  next
    case (Cons k ks)
    show ?thesis
    proof (cases "map_of es n")
      case None then show ?thesis by simp
    next
      case (Some x)
      show ?thesis
      proof (cases x)
        case (File c') with Some show ?thesis by simp
      next
        case (Dir d)
        from "3.IH"[OF Some Dir, of ks] show ?thesis
          using Some Dir Cons by (auto simp: dir_at_Cons update_conv')
      qed
    qed
  qed
qed

lemma file_at_put_same:
  "q \<noteq> [] \<Longrightarrow> dir_at es (butlast q) \<Longrightarrow> \<not> dir_at es q \<Longrightarrow> file_at (put_file q c es) q = Some c"
proof (induction q c es rule: put_file.induct)
  case (1 c es) then show ?case by simp
next
  case (2 n c es)
  then show ?case
    by (auto simp: file_at_single dir_at_Cons dir_at_Nil update_conv' split: option.splits node.splits)
next
  case (3 n m ns c es)
  show ?case
  proof (cases "map_of es n")
    case None with "3.prems" show ?thesis by (simp add: dir_at_Cons)
  next
    case (Some x)
    show ?thesis
    proof (cases x)
      case (File c') with Some "3.prems" show ?thesis by (simp add: dir_at_Cons)
    next
      case (Dir d)
      have "file_at (put_file (m # ns) c d) (m # ns) = Some c"
        using "3.IH"[OF Some Dir] "3.prems" Some Dir by (simp add: dir_at_Cons)
      then show ?thesis using Some Dir by (simp add: file_at_Cons update_conv')
    qed
  qed
qed

lemma distinct_names_update:
  "distinct_names es \<Longrightarrow> (case x of File c \<Rightarrow> True | Dir d \<Rightarrow> distinct_names d)
   \<Longrightarrow> distinct_names (AList.update n x es)"
proof (induction es rule: distinct_names.induct)
  case 1 then show ?case by (cases x) auto
next
  case (2 m c es)
  then show ?case by (cases x) (auto simp: dom_update)
next
  case (3 m d es)
  then show ?case by (cases x) (auto simp: dom_update)
qed

lemma distinct_names_delete: "distinct_names es \<Longrightarrow> distinct_names (AList.delete n es)"
proof (induction es rule: distinct_names.induct)
  case 1 then show ?case by simp
next
  case (2 m c es)
  then show ?case using dom_delete_subset[of n es] by auto
next
  case (3 m d es)
  then show ?case using dom_delete_subset[of n es] by auto
qed

lemma valid_tree_update:
  "valid_tree es \<Longrightarrow> valid_name n \<Longrightarrow> (case x of File c \<Rightarrow> True | Dir d \<Rightarrow> valid_tree d)
   \<Longrightarrow> valid_tree (AList.update n x es)"
proof (induction es rule: valid_tree.induct)
  case 1 then show ?case by (cases x) auto
next
  case (2 m c es) then show ?case by (cases x) auto
next
  case (3 m d es) then show ?case by (cases x) auto
qed

lemma valid_tree_delete: "valid_tree es \<Longrightarrow> valid_tree (AList.delete n es)"
  by (induction es rule: valid_tree.induct) auto

lemma map_of_Dir_distinct: "distinct_names es \<Longrightarrow> map_of es n = Some (Dir d) \<Longrightarrow> distinct_names d"
  using distinct_names_sub map_of_SomeD by fastforce

lemma map_of_Dir_valid: "valid_tree es \<Longrightarrow> map_of es n = Some (Dir d) \<Longrightarrow> valid_tree d \<and> valid_name n"
  using valid_tree_sub valid_tree_names map_of_SomeD by fastforce

lemma distinct_names_put: "distinct_names es \<Longrightarrow> distinct_names (put_file q c es)"
proof (induction q c es rule: put_file.induct)
  case (1 c es) then show ?case by simp
next
  case (2 n c es)
  then show ?case by (auto simp: distinct_names_update split: option.splits node.splits)
next
  case (3 n m ns c es)
  show ?case
  proof (cases "map_of es n")
    case None then show ?thesis using "3.prems" by simp
  next
    case (Some x)
    show ?thesis
    proof (cases x)
      case (File c') with Some "3.prems" show ?thesis by simp
    next
      case (Dir d)
      have "distinct_names (put_file (m # ns) c d)"
        using "3.IH"[OF Some Dir] map_of_Dir_distinct[OF "3.prems"] Some Dir by simp
      then show ?thesis using Some Dir "3.prems" by (simp add: distinct_names_update)
    qed
  qed
qed

lemma distinct_names_remove: "distinct_names es \<Longrightarrow> distinct_names (remove_file q es)"
proof (induction q es rule: remove_file.induct)
  case (1 es) then show ?case by simp
next
  case (2 n es)
  then show ?case by (auto simp: distinct_names_delete split: option.splits node.splits)
next
  case (3 n m ns es)
  show ?case
  proof (cases "map_of es n")
    case None then show ?thesis using "3.prems" by simp
  next
    case (Some x)
    show ?thesis
    proof (cases x)
      case (File c') with Some "3.prems" show ?thesis by simp
    next
      case (Dir d)
      have "distinct_names (remove_file (m # ns) d)"
        using "3.IH"[OF Some Dir] map_of_Dir_distinct[OF "3.prems"] Some Dir by simp
      then show ?thesis using Some Dir "3.prems" by (simp add: distinct_names_update)
    qed
  qed
qed

lemma valid_tree_put:
  "valid_tree es \<Longrightarrow> q \<noteq> [] \<Longrightarrow> valid_name (last q) \<Longrightarrow> valid_tree (put_file q c es)"
proof (induction q c es rule: put_file.induct)
  case (1 c es) then show ?case by simp
next
  case (2 n c es)
  then show ?case by (auto simp: valid_tree_update split: option.splits node.splits)
next
  case (3 n m ns c es)
  show ?case
  proof (cases "map_of es n")
    case None then show ?thesis using "3.prems" by simp
  next
    case (Some x)
    show ?thesis
    proof (cases x)
      case (File c') with Some "3.prems" show ?thesis by simp
    next
      case (Dir d)
      have v: "valid_tree d" "valid_name n"
        using map_of_Dir_valid[OF "3.prems"(1)] Some Dir by simp_all
      have "valid_tree (put_file (m # ns) c d)"
        using "3.IH"[OF Some Dir v(1)] "3.prems" by simp
      then show ?thesis using Some Dir "3.prems" v by (simp add: valid_tree_update)
    qed
  qed
qed

lemma valid_tree_remove: "valid_tree es \<Longrightarrow> valid_tree (remove_file q es)"
proof (induction q es rule: remove_file.induct)
  case (1 es) then show ?case by simp
next
  case (2 n es)
  then show ?case by (auto simp: valid_tree_delete split: option.splits node.splits)
next
  case (3 n m ns es)
  show ?case
  proof (cases "map_of es n")
    case None then show ?thesis using "3.prems" by simp
  next
    case (Some x)
    show ?thesis
    proof (cases x)
      case (File c') with Some "3.prems" show ?thesis by simp
    next
      case (Dir d)
      have v: "valid_tree d" "valid_name n"
        using map_of_Dir_valid[OF "3.prems"(1)] Some Dir by simp_all
      have "valid_tree (remove_file (m # ns) d)"
        using "3.IH"[OF Some Dir v(1)] .
      then show ?thesis using Some Dir "3.prems" v by (simp add: valid_tree_update)
    qed
  qed
qed

lemma file_at_parent: "file_at es (p @ [f]) = Some c \<Longrightarrow> dir_at es p"
proof (induction p arbitrary: es)
  case Nil then show ?case by (simp add: dir_at_Nil)
next
  case (Cons n ns)
  then show ?case
    by (cases "map_of es n") (auto simp: file_at_Cons dir_at_Cons split: node.splits)
qed

lemma file_not_dir: "file_at es p = Some c \<Longrightarrow> \<not> dir_at es p"
  by (auto simp: file_at_def dir_at_def split: option.splits node.splits)

lemma lookup_file_at: "lookup es p = Some (File c) \<longleftrightarrow> file_at es p = Some c"
  by (auto simp: file_at_def split: option.splits node.splits)

lemma lookup_dir_at: "(\<exists>x. lookup es p = Some (Dir x)) \<longleftrightarrow> dir_at es p"
  by (auto simp: dir_at_def split: option.splits node.splits)

lemma os_rename_resolved:
  assumes "resolve base src = Some s" "resolve base dst = Some d"
  shows "os_rename base es src dst =
           (case file_at es s of
              Some c \<Rightarrow> if dir_at es d then Inl IsADirectoryError
                        else if dir_at es (butlast d) then Inr (put_file d c (remove_file s es))
                        else Inl FileNotFoundError
            | None \<Rightarrow> if dir_at es s then Inl OSError else Inl FileNotFoundError)"
  unfolding os_rename_def assms
  by (auto simp: file_at_def dir_at_def split: option.splits node.splits)

lemma read_text_resolved:
  assumes "resolve base p = Some ns"
  shows "read_text decodable base es p =
           (case file_at es ns of
              Some c \<Rightarrow> if decodable c then Inr (universal_newlines c) else Inl UnicodeDecodeError
            | None \<Rightarrow> if dir_at es ns then Inl IsADirectoryError else Inl FileNotFoundError)"
  unfolding read_text_def assms
  by (auto simp: file_at_def dir_at_def split: option.splits node.splits)

lemma write_text_resolved:
  assumes "resolve base p = Some ns"
  shows "write_text base es p s =
           (if dir_at es ns then Inl IsADirectoryError
            else if dir_at es (butlast ns) then Inr (put_file ns s es)
            else Inl FileNotFoundError)"
  unfolding write_text_def assms
  by (auto simp: file_at_def dir_at_def split: option.splits node.splits)

lemma isdir_resolved: "resolve base p = Some ns \<Longrightarrow> isdir base es p = dir_at es ns"
  by (auto simp: isdir_def dir_at_def split: option.splits node.splits)

lemma path_exists_resolved:
  "resolve base p = Some ns \<Longrightarrow> path_exists base es p = (lookup es ns \<noteq> None)"
  by (simp add: path_exists_def)

lemma valid_index_names: "valid_name ''_index.tsx''" "valid_name ''index.tsx''"
  by (simp_all add: valid_name_def)

lemma src_paths:
  assumes "base_ok base" "list_all valid_name ds"
  shows "src_of base ds = root_of base (ds @ [''_index.tsx''])"
    and "resolve base (src_of base ds) = Some (ds @ [''_index.tsx''])"
    and "path_join (dirname (src_of base ds)) ''index.tsx'' = root_of base (ds @ [''index.tsx''])"
    and "resolve base (root_of base (ds @ [''index.tsx''])) = Some (ds @ [''index.tsx''])"
    and "path_join (root_of base (ds @ [''index.tsx''])) (basename (rstrip_slashes (src_of base ds)))
           = root_of base (ds @ [''index.tsx'', ''_index.tsx''])"
    and "resolve base (root_of base (ds @ [''index.tsx'', ''_index.tsx'']))
           = Some (ds @ [''index.tsx'', ''_index.tsx''])"
proof -
  have ok: "base_ok (root_of base ds)" using root_of_ok[OF assms] .
  show 1: "src_of base ds = root_of base (ds @ [''_index.tsx''])"
    by (simp add: src_of_def root_of_snoc)
  have v1: "list_all valid_name (ds @ [''_index.tsx''])" using assms(2) valid_index_names by simp
  have v2: "list_all valid_name (ds @ [''index.tsx''])" using assms(2) valid_index_names by simp
  have v3: "list_all valid_name (ds @ [''index.tsx'', ''_index.tsx''])"
    using assms(2) valid_index_names by simp
  show "resolve base (src_of base ds) = Some (ds @ [''_index.tsx''])"
    unfolding 1 by (rule resolve_root_of[OF assms(1) v1]) simp
  have e: "src_of base ds = root_of base ds @ CHR ''/'' # ''_index.tsx''"
    unfolding src_of_def using path_join_root_of[OF assms valid_index_names(1)] .
  have dn: "dirname (src_of base ds) = root_of base ds"
    unfolding e using dirname_file[OF ok valid_index_names(1)] .
  show "path_join (dirname (src_of base ds)) ''index.tsx'' = root_of base (ds @ [''index.tsx''])"
    by (simp add: dn root_of_snoc)
  show "resolve base (root_of base (ds @ [''index.tsx''])) = Some (ds @ [''index.tsx''])"
    by (rule resolve_root_of[OF assms(1) v2]) simp
  have bn: "basename (rstrip_slashes (src_of base ds)) = ''_index.tsx''"
    unfolding e using basename_file[OF valid_index_names(1)] .
  show "path_join (root_of base (ds @ [''index.tsx''])) (basename (rstrip_slashes (src_of base ds)))
           = root_of base (ds @ [''index.tsx'', ''_index.tsx''])"
    unfolding bn using root_of_snoc[of base "ds @ [''index.tsx'']" "''_index.tsx''"] by simp
  show "resolve base (root_of base (ds @ [''index.tsx'', ''_index.tsx'']))
           = Some (ds @ [''index.tsx'', ''_index.tsx''])"
    by (rule resolve_root_of[OF assms(1) v3]) simp
qed

lemma rename_one_resolved:
  assumes "base_ok base" "list_all valid_name ds"
  shows "rename_one decodable base es (src_of base ds) = step_result decodable es ds"
proof -
  let ?s = "ds @ [''_index.tsx'']" and ?d = "ds @ [''index.tsx'']"
  let ?d2 = "ds @ [''index.tsx'', ''_index.tsx'']"
  note p = src_paths[OF assms]
  have mv: "shutil_move base es (src_of base ds) (root_of base ?d) =
              (if dir_at es ?d
               then (if lookup es ?d2 \<noteq> None then Inl ShutilError
                     else os_rename base es (src_of base ds) (root_of base ?d2))
               else os_rename base es (src_of base ds) (root_of base ?d))"
    unfolding shutil_move_def Let_def isdir_resolved[OF p(4)] p(5) path_exists_resolved[OF p(6)]
    by simp
  have r1: "os_rename base es (src_of base ds) (root_of base ?d) =
              (case file_at es ?s of
                 Some c \<Rightarrow> if dir_at es ?d then Inl IsADirectoryError
                           else if dir_at es ds then Inr (put_file ?d c (remove_file ?s es))
                           else Inl FileNotFoundError
               | None \<Rightarrow> if dir_at es ?s then Inl OSError else Inl FileNotFoundError)"
    using os_rename_resolved[OF p(2) p(4), of es, unfolded butlast_snoc] .
  have r2: "os_rename base es (src_of base ds) (root_of base ?d2) =
              (case file_at es ?s of
                 Some c \<Rightarrow> if dir_at es ?d2 then Inl IsADirectoryError
                           else if dir_at es ?d then Inr (put_file ?d2 c (remove_file ?s es))
                           else Inl FileNotFoundError
               | None \<Rightarrow> if dir_at es ?s then Inl OSError else Inl FileNotFoundError)"
  proof -
    have b: "butlast ?d2 = ?d" by (simp add: butlast_append)
    show ?thesis using os_rename_resolved[OF p(2) p(6), of es, unfolded b] .
  qed
  show ?thesis
  proof (cases "file_at es ?s")
    case None
    then show ?thesis
      unfolding rename_one_def Let_def p(3) mv r1 r2 step_result_def by simp
  next
    case (Some c)
    have par: "dir_at es ds" using file_at_parent[OF Some] .
    show ?thesis
    proof (cases "dir_at es ?d")
      case True
      show ?thesis
      proof (cases "lookup es ?d2 = None")
        case ex: False
        then show ?thesis
          unfolding rename_one_def Let_def p(3) mv step_result_def using Some True by simp
      next
        case nex: True
        then have nd: "\<not> dir_at es ?d2" by (simp add: dir_at_def)
        let ?es1 = "put_file ?d2 c (remove_file ?s es)"
        have "dir_at ?es1 ?d" using True by (simp add: dir_at_put dir_at_remove)
        moreover have "file_at ?es1 ?d = None"
          using calculation by (auto simp: file_at_def dir_at_def split: option.splits node.splits)
        ultimately have rd: "read_text decodable base ?es1 (root_of base ?d) = Inl IsADirectoryError"
          by (simp add: read_text_resolved[OF p(4)])
        show ?thesis
          unfolding rename_one_def Let_def p(3) mv r2 step_result_def
          using Some True nex nd rd by simp
      qed
    next
      case False
      let ?es1 = "put_file ?d c (remove_file ?s es)"
      have f1: "file_at ?es1 ?d = Some c"
        by (rule file_at_put_same) (simp_all add: dir_at_remove butlast_append par False)
      have nd1: "\<not> dir_at ?es1 ?d" using False by (simp add: dir_at_put dir_at_remove)
      have pd1: "dir_at ?es1 ds" using par by (simp add: dir_at_put dir_at_remove)
      have rd: "read_text decodable base ?es1 (root_of base ?d) =
                  (if decodable c then Inr (universal_newlines c) else Inl UnicodeDecodeError)"
        by (simp add: read_text_resolved[OF p(4)] f1)
      have wr: "\<And>t. write_text base ?es1 (root_of base ?d) t = Inr (put_file ?d t ?es1)"
        using nd1 pd1 by (simp add: write_text_resolved[OF p(4)] butlast_append)
      show ?thesis
        unfolding rename_one_def Let_def p(3) mv r1 step_result_def
        using Some False par rd wr by simp
    qed
  qed
qed

lemma find_files_index_dirs: "find_files base es = map (src_of base) (index_dirs es)"
  by (simp add: find_files_eq matches_of_def index_dirs_def src_of_def case_prod_unfold comp_def)

lemma index_dirs_valid:
  "valid_tree es \<Longrightarrow> list_all (list_all valid_name) (index_dirs es)"
  using tree_files_valid by (auto simp: index_dirs_def list_all_iff simp del: tree_files.simps)

lemma index_dirs_file_at:
  "distinct_names es \<Longrightarrow> (ds \<in> set (index_dirs es)) = (file_at es (ds @ [''_index.tsx'']) \<noteq> None)"
  using tree_files_file_at[of es ds "''_index.tsx''"]
  by (auto simp: index_dirs_def image_iff simp del: tree_files.simps)

lemma step_frame:
  assumes "step_result decodable es ds = (r, es')"
    and "p \<noteq> ds @ [''_index.tsx'']" "p \<noteq> ds @ [''index.tsx'']"
    and "p \<noteq> ds @ [''index.tsx'', ''_index.tsx'']"
  shows "file_at es' p = file_at es p"
  using assms
  by (auto simp: step_result_def Let_def file_at_put_other file_at_remove
      split: option.splits if_splits)

lemma step_dirs:
  assumes "step_result decodable es ds = (r, es')"
  shows "dir_at es' p = dir_at es p"
  using assms
  by (auto simp: step_result_def Let_def dir_at_put dir_at_remove
      split: option.splits if_splits)

lemma step_success:
  assumes "step_result decodable es ds = (None, es')"
  shows "file_at es' (ds @ [''_index.tsx'']) = None"
  using assms
  by (auto simp: step_result_def Let_def file_at_put_other file_at_remove
      split: option.splits if_splits)

lemma step_success_dst:
  assumes "step_result decodable es ds = (None, es')"
  shows "\<exists>c. file_at es' (ds @ [''index.tsx'']) = Some c"
proof -
  let ?s = "ds @ [''_index.tsx'']" and ?d = "ds @ [''index.tsx'']"
  obtain c where c: "file_at es ?s = Some c" and nd: "\<not> dir_at es ?d"
    using assms by (auto simp: step_result_def Let_def split: option.splits if_splits)
  have par: "dir_at es ds" using file_at_parent[OF c] .
  let ?es1 = "put_file ?d c (remove_file ?s es)"
  have f1: "file_at ?es1 ?d = Some c"
    by (rule file_at_put_same) (simp_all add: dir_at_remove butlast_append par nd)
  have f2: "\<And>t. file_at (put_file ?d t ?es1) ?d = Some t"
    by (rule file_at_put_same) (simp_all add: dir_at_put dir_at_remove butlast_append par nd)
  show ?thesis
    using assms c nd f1 f2
    by (auto simp: step_result_def Let_def split: if_splits)
qed

lemma step_wf:
  assumes "step_result decodable es ds = (r, es')" "distinct_names es" "valid_tree es"
  shows "distinct_names es' \<and> valid_tree es'"
  using assms
  by (auto simp: step_result_def Let_def distinct_names_put distinct_names_remove
      valid_tree_put valid_tree_remove valid_index_names
      split: option.splits if_splits)

lemma rename_loop_Cons:
  "rename_loop decodable base es (src # srcs) =
     (if fst (rename_one decodable base es src) = None
      then rename_loop decodable base (snd (rename_one decodable base es src)) srcs
      else rename_one decodable base es src)"
  by (cases "rename_one decodable base es src") (auto split: option.splits)

lemma loop_frame:
  assumes "base_ok base"
  shows "list_all (list_all valid_name) dss
   \<Longrightarrow> rename_loop decodable base es (map (src_of base) dss) = (r, es')
   \<Longrightarrow> p \<noteq> [] \<Longrightarrow> last p \<noteq> ''_index.tsx''
   \<Longrightarrow> (last p = ''index.tsx'' \<longrightarrow> butlast p \<notin> set dss)
   \<Longrightarrow> file_at es' p = file_at es p"
proof (induction dss arbitrary: es)
  case Nil then show ?case by simp
next
  case (Cons ds dss)
  obtain r1 es1 where s: "step_result decodable es ds = (r1, es1)" by (cases "step_result decodable es ds")
  have ro: "rename_one decodable base es (src_of base ds) = (r1, es1)"
    using rename_one_resolved[OF assms, of ds decodable es] Cons.prems(1) s by simp
  have n1: "p \<noteq> ds @ [''_index.tsx'']" "p \<noteq> ds @ [''index.tsx'', ''_index.tsx'']"
    using Cons.prems(4) by auto
  have n2: "p \<noteq> ds @ [''index.tsx'']"
  proof
    assume "p = ds @ [''index.tsx'']"
    then have "last p = ''index.tsx''" "butlast p = ds" by simp_all
    with Cons.prems(5) show False by simp
  qed
  have f: "file_at es1 p = file_at es p" using step_frame[OF s n1(1) n2 n1(2)] .
  show ?case
  proof (cases r1)
    case None
    then have "rename_loop decodable base es1 (map (src_of base) dss) = (r, es')"
      using Cons.prems(2) ro by (simp add: rename_loop_Cons)
    from Cons.IH[OF _ this Cons.prems(3,4)] Cons.prems(1,5) f show ?thesis by simp
  next
    case (Some e)
    then have "es' = es1" using Cons.prems(2) ro by (simp add: rename_loop_Cons)
    with f show ?thesis by simp
  qed
qed

lemma loop_dirs:
  assumes "base_ok base"
  shows "list_all (list_all valid_name) dss
   \<Longrightarrow> rename_loop decodable base es (map (src_of base) dss) = (r, es')
   \<Longrightarrow> dir_at es' p = dir_at es p"
proof (induction dss arbitrary: es)
  case Nil then show ?case by simp
next
  case (Cons ds dss)
  obtain r1 es1 where s: "step_result decodable es ds = (r1, es1)" by (cases "step_result decodable es ds")
  have ro: "rename_one decodable base es (src_of base ds) = (r1, es1)"
    using rename_one_resolved[OF assms, of ds decodable es] Cons.prems(1) s by simp
  have f: "dir_at es1 p = dir_at es p" using step_dirs[OF s] .
  show ?case
  proof (cases r1)
    case None
    then have "rename_loop decodable base es1 (map (src_of base) dss) = (r, es')"
      using Cons.prems(2) ro by (simp add: rename_loop_Cons)
    from Cons.IH[OF _ this] Cons.prems(1) f show ?thesis by simp
  next
    case (Some e)
    then have "es' = es1" using Cons.prems(2) ro by (simp add: rename_loop_Cons)
    with f show ?thesis by simp
  qed
qed

lemma loop_success:
  assumes "base_ok base"
  shows "list_all (list_all valid_name) dss
   \<Longrightarrow> distinct_names es \<Longrightarrow> valid_tree es
   \<Longrightarrow> \<forall>ds. file_at es (ds @ [''_index.tsx'']) \<noteq> None \<longrightarrow> ds \<in> set dss
   \<Longrightarrow> rename_loop decodable base es (map (src_of base) dss) = (None, es')
   \<Longrightarrow> distinct_names es' \<and> valid_tree es' \<and> (\<forall>ds. file_at es' (ds @ [''_index.tsx'']) = None)"
proof (induction dss arbitrary: es)
  case Nil then show ?case by simp
next
  case (Cons ds dss)
  obtain r1 es1 where s: "step_result decodable es ds = (r1, es1)" by (cases "step_result decodable es ds")
  have ro: "rename_one decodable base es (src_of base ds) = (r1, es1)"
    using rename_one_resolved[OF assms, of ds decodable es] Cons.prems(1) s by simp
  have r1: "r1 = None" using Cons.prems(5) ro by (cases r1) (simp_all add: rename_loop_Cons)
  have l: "rename_loop decodable base es1 (map (src_of base) dss) = (None, es')"
    using Cons.prems(5) ro r1 by (simp add: rename_loop_Cons)
  have wf: "distinct_names es1" "valid_tree es1"
    using step_wf[OF s Cons.prems(2,3)] by simp_all
  have inv: "\<forall>ds'. file_at es1 (ds' @ [''_index.tsx'']) \<noteq> None \<longrightarrow> ds' \<in> set dss"
  proof (intro allI impI)
    fix ds' assume a: "file_at es1 (ds' @ [''_index.tsx'']) \<noteq> None"
    have "ds' \<noteq> ds" using a step_success[OF s[unfolded r1]] by auto
    moreover have "ds' \<noteq> ds @ [''index.tsx'']"
    proof
      assume e: "ds' = ds @ [''index.tsx'']"
      obtain c where "file_at es1 (ds @ [''index.tsx'']) = Some c"
        using step_success_dst[OF s[unfolded r1]] by blast
      then have "\<not> dir_at es1 ds'" unfolding e by (rule file_not_dir)
      moreover obtain c' where "file_at es1 (ds' @ [''_index.tsx'']) = Some c'" using a by blast
      then have "dir_at es1 ds'" by (rule file_at_parent)
      ultimately show False by simp
    qed
    ultimately have "file_at es1 (ds' @ [''_index.tsx'']) = file_at es (ds' @ [''_index.tsx''])"
      by (intro step_frame[OF s]) auto
    with a Cons.prems(4) \<open>ds' \<noteq> ds\<close> show "ds' \<in> set dss" by auto
  qed
  from Cons.IH[OF _ wf inv l] Cons.prems(1) show ?case by simp
qed

lemma base_ok_rename_base_dir: "base_ok rename_base_dir"
  by (simp add: base_ok_def rename_base_dir_def)

lemma rename_indexes_eq:
  "rename_indexes decodable es
     = rename_loop decodable rename_base_dir es (map (src_of rename_base_dir) (index_dirs es))"
  by (simp add: rename_indexes_def find_files_index_dirs)

lemma rename_loop_steps:
  assumes "base_ok base"
  shows "list_all (list_all valid_name) dss
    \<Longrightarrow> rename_loop decodable base es (map (src_of base) dss) = steps decodable es dss"
proof (induction dss arbitrary: es)
  case Nil then show ?case by simp
next
  case (Cons ds dss)
  then show ?case
    using rename_one_resolved[OF assms, of ds decodable es]
    by (simp split: prod.splits option.splits)
qed

lemma rename_indexes_steps:
  "valid_tree es \<Longrightarrow> rename_indexes decodable es = steps decodable es (index_dirs es)"
  by (simp add: rename_indexes_eq rename_loop_steps[OF base_ok_rename_base_dir] index_dirs_valid)












lemma move_resolved:
  assumes "base_ok base" "list_all valid_name ds"
    and "file_at es (ds @ [''_index.tsx'']) = Some c" "\<not> dir_at es (ds @ [''index.tsx''])"
  shows "shutil_move base es (src_of base ds) (path_join (dirname (src_of base ds)) ''index.tsx'')
           = Inr (put_file (ds @ [''index.tsx'']) c (remove_file (ds @ [''_index.tsx'']) es))"
proof -
  note p = src_paths[OF assms(1,2)]
  have par: "dir_at es ds" using file_at_parent[OF assms(3)] .
  show ?thesis
    unfolding p(3) shutil_move_def isdir_resolved[OF p(4)]
    using os_rename_resolved[OF p(2) p(4), of es, unfolded butlast_snoc] assms(3,4) par
    by simp
qed

lemmas eval_step = step_result_def file_at_def dir_at_def all_decodable_def Let_def
  old_import_def new_import_def startswith_def




lemma nested_files_heads:
  "(p, f) \<in> set (nested_files es) \<Longrightarrow> p \<noteq> [] \<and> hd p \<in> fst ` set es"
  by (induction es rule: file_names.induct) (auto simp del: tree_files.simps)

lemma file_names_subset: "set (file_names es) \<subseteq> fst ` set es"
  by (induction es rule: file_names.induct) auto

lemma distinct_file_names: "distinct_names es \<Longrightarrow> distinct (file_names es)"
  using file_names_subset by (induction es rule: distinct_names.induct) auto

lemma distinct_tree_files:
  "(distinct_names es \<longrightarrow> distinct (tree_files es))
   \<and> (distinct_names es \<longrightarrow> distinct (nested_files es))"
  (is "?P es \<and> ?Q es")
proof -
  have "(\<lambda>es. ?P es) es" "(\<lambda>es. ?Q es) es"
  proof (induction es and es rule: tree_files_nested_files.induct)
    case (1 es)
    show ?case
    proof
      assume d: "distinct_names es"
      have "distinct (map (Pair ([]::string list)) (file_names es))"
        using distinct_file_names[OF d] by (simp add: distinct_map inj_on_def)
      moreover have "distinct (nested_files es)" using "1.IH" d by simp
      moreover have "set (map (Pair []) (file_names es)) \<inter> set (nested_files es) = {}"
        using nested_files_heads[of _ _ es] by auto
      ultimately show "distinct (tree_files es)" by simp
    qed
  next
    case 2 show ?case by simp
  next
    case (3 n c es) then show ?case by simp
  next
    case (4 n d es)
    show ?case
    proof
      assume dn: "distinct_names ((n, Dir d) # es)"
      then have n: "n \<notin> fst ` set es" and dd: "distinct_names d" and de: "distinct_names es"
        by simp_all
      have a: "distinct (map (\<lambda>(ds, f). (n # ds, f)) (tree_files d))"
        using "4.IH"(1) dd by (simp add: distinct_map inj_on_def case_prod_unfold prod_eq_iff del: tree_files.simps)
      have b: "distinct (nested_files es)" using "4.IH"(2) de by simp
      have c: "set (map (\<lambda>(ds, f). (n # ds, f)) (tree_files d)) \<inter> set (nested_files es) = {}"
      proof -
        have h: "\<And>p f. (p, f) \<in> set (nested_files es) \<Longrightarrow> hd p \<noteq> n"
          using nested_files_heads[of _ _ es] n by auto
        show ?thesis
        proof (rule ccontr)
          assume "set (map (\<lambda>(ds, f). (n # ds, f)) (tree_files d)) \<inter> set (nested_files es) \<noteq> {}"
          then obtain q where q: "q \<in> set (map (\<lambda>(ds, f). (n # ds, f)) (tree_files d))"
            "q \<in> set (nested_files es)" by blast
          from q(1) have "hd (fst q) = n" by (auto simp del: tree_files.simps)
          moreover from q(2) have "hd (fst q) \<noteq> n" using h[of "fst q" "snd q"] by simp
          ultimately show False by simp
        qed
      qed
      from a b c show "distinct (nested_files ((n, Dir d) # es))"
        by (simp del: tree_files.simps)
    qed
  qed
  then show ?thesis by simp
qed

lemma rename_one_reads_dst:
  assumes "base_ok base" "list_all valid_name ds"
  shows "set (rename_one_reads base es (src_of base ds)) \<subseteq> {root_of base (ds @ [''index.tsx''])}"
  unfolding rename_one_reads_def Let_def src_paths(3)[OF assms]
  by (auto split: sum.splits)

lemma loop_reads:
  assumes "base_ok base"
  shows "list_all (list_all valid_name) dss
   \<Longrightarrow> q \<in> set (rename_loop_reads decodable base es (map (src_of base) dss))
   \<Longrightarrow> \<exists>ds \<in> set dss. q = root_of base (ds @ [''index.tsx''])"
proof (induction dss arbitrary: es)
  case Nil then show ?case by simp
next
  case (Cons ds dss)
  then have v: "list_all valid_name ds" and vs: "list_all (list_all valid_name) dss" by simp_all
  from Cons.prems(2) consider
      (a) "q \<in> set (rename_one_reads base es (src_of base ds))"
    | (b) es1 where "q \<in> set (rename_loop_reads decodable base es1 (map (src_of base) dss))"
    by (auto split: prod.splits option.splits)
  then show ?case
  proof cases
    case a
    then show ?thesis using rename_one_reads_dst[OF assms v, of es] by auto
  next
    case b
    from Cons.IH[OF vs b] show ?thesis by auto
  qed
qed

lemma run_reads:
  assumes "valid_tree es" "distinct_names es" "q \<in> set (rename_indexes_reads decodable es)"
  shows "\<exists>ds. file_at es (ds @ [''_index.tsx'']) \<noteq> None
            \<and> resolve rename_base_dir q = Some (ds @ [''index.tsx''])"
proof -
  have "q \<in> set (rename_loop_reads decodable rename_base_dir es
                    (map (src_of rename_base_dir) (index_dirs es)))"
    using assms(3) by (simp add: rename_indexes_reads_def find_files_index_dirs)
  from loop_reads[OF base_ok_rename_base_dir index_dirs_valid[OF assms(1)] this]
  obtain ds where ds: "ds \<in> set (index_dirs es)" "q = root_of rename_base_dir (ds @ [''index.tsx''])"
    by blast
  have v: "list_all valid_name ds"
    using index_dirs_valid[OF assms(1)] ds(1) by (simp add: list_all_iff)
  have "resolve rename_base_dir q = Some (ds @ [''index.tsx''])"
    unfolding ds(2) using src_paths(4)[OF base_ok_rename_base_dir v] .
  moreover have "file_at es (ds @ [''_index.tsx'']) \<noteq> None"
    using index_dirs_file_at[OF assms(2)] ds(1) by simp
  ultimately show ?thesis by blast
qed

lemma successful_run_renames_all:
  assumes "valid_tree es" "distinct_names es" "rename_indexes decodable es = (None, es')"
  shows "distinct_names es' \<and> valid_tree es' \<and> (\<forall>ds. file_at es' (ds @ [''_index.tsx'']) = None)"
proof -
  have inv: "\<forall>ds. file_at es (ds @ [''_index.tsx'']) \<noteq> None \<longrightarrow> ds \<in> set (index_dirs es)"
    using index_dirs_file_at[OF assms(2)] by simp
  have l: "rename_loop decodable rename_base_dir es (map (src_of rename_base_dir) (index_dirs es)) = (None, es')"
    using assms(3) by (simp add: rename_indexes_eq)
  from loop_success[OF base_ok_rename_base_dir index_dirs_valid[OF assms(1)] assms(2,1) inv l]
  show ?thesis .
qed

lemma reads_moved:
  assumes "base_ok base" "list_all valid_name ds"
    and "file_at es (ds @ [''_index.tsx'']) = Some c" "\<not> dir_at es (ds @ [''index.tsx''])"
  shows "rename_one_reads base es (src_of base ds) = [root_of base (ds @ [''index.tsx''])]"
  unfolding rename_one_reads_def Let_def move_resolved[OF assms]
  by (simp add: src_paths(3)[OF assms(1,2)])

section \<open>The claims about the generator\<close>

text \<open>
  C1, as amended. For every tree of regular files and listed directories with well-formed
  names, the walk succeeds and collects exactly the registration lines of the files of
  the tree whose name ends in \<open>.tsx\<close>, one line for each such file and none for any
  other. When the platform can encode the resulting text, the run succeeds and the output
  file holds these lines, sorted, between the header and the footer; when it cannot, the
  run ends with \<open>UnicodeEncodeError\<close> and the output file is left empty. When no
  directory lists a name twice, the files so enumerated are pairwise different and are
  exactly the paths at which the tree holds a regular file with that extension.
\<close>

theorem every_tsx_file_registered_once:
  assumes "valid_tree es"
  shows "walk_loop cwd (map Yield (walk base_dir es)) [] = Inr (map (\<lambda>(ds, f). registration_line ds f) (qualifying (tree_files es)))
       \<and> (encodable (header @ join_with [CHR 0x0A] (sort (map (\<lambda>(ds, f). registration_line ds f) (qualifying (tree_files es)))) @ footer) \<longrightarrow>
            generate_tree encodable cwd es output_file
              = (None, Some (header @ join_with [CHR 0x0A] (sort (map (\<lambda>(ds, f). registration_line ds f) (qualifying (tree_files es)))) @ footer)))
       \<and> (\<not> encodable (header @ join_with [CHR 0x0A] (sort (map (\<lambda>(ds, f). registration_line ds f) (qualifying (tree_files es)))) @ footer) \<longrightarrow>
            generate_tree encodable cwd es output_file = (Some UnicodeEncodeError, Some []))
       \<and> mset (sort (map (\<lambda>(ds, f). registration_line ds f) (qualifying (tree_files es))))
           = image_mset (\<lambda>(ds, f). registration_line ds f) (mset (qualifying (tree_files es)))
       \<and> (distinct_names es \<longrightarrow>
            distinct (qualifying (tree_files es))
          \<and> ((ds, f) \<in> set (qualifying (tree_files es)))
              = (file_at es (ds @ [f]) \<noteq> None \<and> endswith f ''.tsx''))"
proof -
  have w: "walk_loop cwd (map Yield (walk base_dir es)) [] = Inr (map (\<lambda>(ds, f). registration_line ds f) (qualifying (tree_files es)))"
    using walk_loop_tree[OF assms] by (simp only: lines_under_Nil)
  have g: "generate_tree encodable cwd es output_file
           = (if encodable (header @ join_with [CHR 0x0A] (sort (map (\<lambda>(ds, f). registration_line ds f) (qualifying (tree_files es)))) @ footer)
              then (None, Some (header @ join_with [CHR 0x0A] (sort (map (\<lambda>(ds, f). registration_line ds f) (qualifying (tree_files es)))) @ footer))
              else (Some UnicodeEncodeError, Some []))"
    using w by (simp add: generate_tree_def generate_def content_of_def del: walk.simps tree_files.simps)
  have m: "mset (sort (map (\<lambda>(ds, f). registration_line ds f) (qualifying (tree_files es))))
           = image_mset (\<lambda>(ds, f). registration_line ds f) (mset (qualifying (tree_files es)))"
    by simp
  have d: "distinct (qualifying (tree_files es))
          \<and> ((ds, f) \<in> set (qualifying (tree_files es)))
              = (file_at es (ds @ [f]) \<noteq> None \<and> endswith f ''.tsx'')"
    if dn: "distinct_names es"
  proof -
    have "distinct (tree_files es)" using distinct_tree_files[of es] dn by blast
    then have 1: "distinct (qualifying (tree_files es))"
      unfolding qualifying_def by (rule distinct_filter)
    have 2: "((ds, f) \<in> set (qualifying (tree_files es)))
              = (file_at es (ds @ [f]) \<noteq> None \<and> endswith f ''.tsx'')"
      using tree_files_file_at[OF dn, of ds f] by (simp add: qualifying_def del: tree_files.simps)
    from 1 2 show ?thesis by simp
  qed
  from w g m d show ?thesis by presburger
qed

theorem every_tsx_file_registered_once_witness:
  \<open>valid_tree [(''_index.tsx'', File ''x''), (''a'', Dir [(''$id.tsx'', File ''''), (''notes.md'', File '''')])]
   \<and> distinct_names [(''_index.tsx'', File ''x''), (''a'', Dir [(''$id.tsx'', File ''''), (''notes.md'', File '''')])]
   \<and> distinct (qualifying (tree_files [(''_index.tsx'', File ''x''), (''a'', Dir [(''$id.tsx'', File ''''), (''notes.md'', File '''')])]))
   \<and> file_at [(''_index.tsx'', File ''x''), (''a'', Dir [(''$id.tsx'', File ''''), (''notes.md'', File '''')])] [''a'', ''$id.tsx''] \<noteq> None
   \<and> ([''a''], ''$id.tsx'') \<in> set (qualifying (tree_files [(''_index.tsx'', File ''x''), (''a'', Dir [(''$id.tsx'', File ''''), (''notes.md'', File '''')])]))
   \<and> utf8_valid (''import { type RouteConfig, index, route } from "@react-router/dev/routes";''
            @ [CHR 0x0A, CHR 0x0A] @ ''export default ['' @ [CHR 0x0A]
            @ ''    index("routes/_index.tsx"),'' @ [CHR 0x0A]
            @ ''    route("a/:id", "routes/a/$id.tsx"),'' @ [CHR 0x0A]
            @ ''] satisfies RouteConfig;'' @ [CHR 0x0A])
   \<and> generate_tree utf8_valid ''/w'' [(''_index.tsx'', File ''x''), (''a'', Dir [(''$id.tsx'', File ''''), (''notes.md'', File '''')])] None = (None, Some (''import { type RouteConfig, index, route } from "@react-router/dev/routes";''
            @ [CHR 0x0A, CHR 0x0A] @ ''export default ['' @ [CHR 0x0A]
            @ ''    index("routes/_index.tsx"),'' @ [CHR 0x0A]
            @ ''    route("a/:id", "routes/a/$id.tsx"),'' @ [CHR 0x0A]
            @ ''] satisfies RouteConfig;'' @ [CHR 0x0A]))\<close>
proof -
  let ?t = \<open>[(''_index.tsx'', File ''x''), (''a'', Dir [(''$id.tsx'', File ''''), (''notes.md'', File '''')])]\<close>
  have v: "valid_tree ?t" by (simp add: valid_name_def)
  have q: \<open>map (\<lambda>(ds, f). registration_line ds f) (qualifying (tree_files ?t))
         = [''    index("routes/_index.tsx"),'', ''    route("a/:id", "routes/a/$id.tsx"),'']\<close>
    by (simp add: qualifying_def endswith_def registration_line_def index_like_def strip_ext_def startswith_def)
  have s: \<open>sort [''    index("routes/_index.tsx"),'', ''    route("a/:id", "routes/a/$id.tsx"),'']
         = [''    index("routes/_index.tsx"),'', ''    route("a/:id", "routes/a/$id.tsx"),'']\<close>
    by simp
  have c: \<open>header @ join_with [CHR 0x0A]
              [''    index("routes/_index.tsx"),'', ''    route("a/:id", "routes/a/$id.tsx"),''] @ footer
           = ''import { type RouteConfig, index, route } from "@react-router/dev/routes";''
            @ [CHR 0x0A, CHR 0x0A] @ ''export default ['' @ [CHR 0x0A]
            @ ''    index("routes/_index.tsx"),'' @ [CHR 0x0A]
            @ ''    route("a/:id", "routes/a/$id.tsx"),'' @ [CHR 0x0A]
            @ ''] satisfies RouteConfig;'' @ [CHR 0x0A]\<close>
    by (simp add: header_def footer_def)
  have u: \<open>utf8_valid (''import { type RouteConfig, index, route } from "@react-router/dev/routes";''
            @ [CHR 0x0A, CHR 0x0A] @ ''export default ['' @ [CHR 0x0A]
            @ ''    index("routes/_index.tsx"),'' @ [CHR 0x0A]
            @ ''    route("a/:id", "routes/a/$id.tsx"),'' @ [CHR 0x0A]
            @ ''] satisfies RouteConfig;'' @ [CHR 0x0A])\<close>
    by (rule utf8_valid_ascii_only) (simp add: in_range_def)
  have d: "distinct_names ?t" by simp
  have f: "file_at ?t [''a'', ''$id.tsx''] \<noteq> None" by (simp add: file_at_def)
  have i: "distinct (qualifying (tree_files ?t))"
    "([''a''], ''$id.tsx'') \<in> set (qualifying (tree_files ?t))"
    by (simp_all add: qualifying_def endswith_def)
  note th = every_tsx_file_registered_once[OF v, of "''/w''" utf8_valid None "[''a'']" "''$id.tsx''",
      unfolded q s c]
  from th u have \<open>generate_tree utf8_valid ''/w'' ?t None = (None, Some (''import { type RouteConfig, index, route } from "@react-router/dev/routes";''
            @ [CHR 0x0A, CHR 0x0A] @ ''export default ['' @ [CHR 0x0A]
            @ ''    index("routes/_index.tsx"),'' @ [CHR 0x0A]
            @ ''    route("a/:id", "routes/a/$id.tsx"),'' @ [CHR 0x0A]
            @ ''] satisfies RouteConfig;'' @ [CHR 0x0A]))\<close>
    by blast
  with v d i f u show ?thesis by simp
qed

text \<open>
  C1 as stated fails for a tree with a file name that is not valid UTF-8: the run
  raises while writing and the output file, emptied on opening, holds no line at all.
\<close>

theorem undecodable_name_leaves_output_empty:
  \<open>valid_tree [(''a.tsx'', File ''''), (CHR 0xFF # ''.tsx'', File '''')]
   \<and> file_at [(''a.tsx'', File ''''), (CHR 0xFF # ''.tsx'', File '''')] [''a.tsx''] \<noteq> None \<and> endswith ''a.tsx'' ''.tsx''
   \<and> generate_tree utf8_valid ''/w'' [(''a.tsx'', File ''''), (CHR 0xFF # ''.tsx'', File '''')] (Some ''old'') = (Some UnicodeEncodeError, Some [])\<close>
proof -
  let ?t = \<open>[(''a.tsx'', File ''''), (CHR 0xFF # ''.tsx'', File '''')]\<close>
  have v: "valid_tree ?t" by (simp add: valid_name_def)
  have w: "walk_loop ''/w'' (map Yield (walk base_dir ?t)) [] = Inr (lines_under [] (tree_files ?t))"
    using walk_loop_tree[OF v] .
  have q: \<open>lines_under [] (tree_files ?t)
         = [''    route("a", "routes/a.tsx"),'',
            ''    route("'' @ [CHR 0xFF] @ ''", "routes/'' @ [CHR 0xFF] @ ''.tsx"),'']\<close>
    by (simp add: lines_under_def qualifying_def endswith_def registration_line_def index_like_def
        strip_ext_def startswith_def)
  have s: \<open>sort [''    route("a", "routes/a.tsx"),'',
            ''    route("'' @ [CHR 0xFF] @ ''", "routes/'' @ [CHR 0xFF] @ ''.tsx"),'']
         = [''    route("a", "routes/a.tsx"),'',
            ''    route("'' @ [CHR 0xFF] @ ''", "routes/'' @ [CHR 0xFF] @ ''.tsx"),'']\<close>
    by simp
  have c: \<open>content_of [''    route("a", "routes/a.tsx"),'',
            ''    route("'' @ [CHR 0xFF] @ ''", "routes/'' @ [CHR 0xFF] @ ''.tsx"),'']
         = (header @ ''    route("a", "routes/a.tsx"),'' @ [CHR 0x0A] @ ''    route("'')
            @ CHR 0xFF # (''", "routes/'' @ [CHR 0xFF] @ ''.tsx"),'' @ footer)\<close>
    unfolding content_of_def s by simp
  have n: \<open>\<not> utf8_valid ((header @ ''    route("a", "routes/a.tsx"),'' @ [CHR 0x0A] @ ''    route("'')
            @ CHR 0xFF # (''", "routes/'' @ [CHR 0xFF] @ ''.tsx"),'' @ footer))\<close>
    by (subst utf8_valid_ascii) (simp_all add: header_def in_range_def)
  have nc: \<open>\<not> utf8_valid (content_of [''    route("a", "routes/a.tsx"),'',
            ''    route("'' @ [CHR 0xFF] @ ''", "routes/'' @ [CHR 0xFF] @ ''.tsx"),''])\<close>
    unfolding c by (rule n)
  have g0: "generate_tree utf8_valid ''/w'' ?t (Some ''old'')
          = (if utf8_valid (content_of (lines_under [] (tree_files ?t)))
             then (None, Some (content_of (lines_under [] (tree_files ?t))))
             else (Some UnicodeEncodeError, Some []))"
    unfolding generate_tree_def generate_def w by (simp only: sum.case)
  have g: "generate_tree utf8_valid ''/w'' ?t (Some ''old'') = (Some UnicodeEncodeError, Some [])"
    unfolding g0 q using nc by (simp only: if_False)
  have f: "file_at ?t [''a.tsx''] \<noteq> None" "endswith ''a.tsx'' ''.tsx''"
    by (simp_all add: file_at_def endswith_def)
  from v f g show ?thesis by (simp only: simp_thms)
qed



text \<open>
  C3. Among the remaining segments, a segment that begins with \<open>$\<close> becomes the same
  segment with the \<open>$\<close> replaced by \<open>:\<close>, every other segment is passed through unchanged,
  and no segment is added or lost; the file \<open>$id.tsx\<close> under \<open>a/\<close> is registered with the
  URL path \<open>a/:id\<close>.
\<close>

theorem sigil_segment_rewritten:
  "url_segments (xs @ [CHR ''$'' # name] @ ys) = url_segments xs @ [CHR '':'' # name] @ url_segments ys
   \<and> (\<not> startswith seg ''$''
        \<longrightarrow> url_segments (xs @ [seg] @ ys) = url_segments xs @ [seg] @ url_segments ys)
   \<and> length (url_segments segs) = length segs
   \<and> route_entry cwd ''app/routes/a'' ''$id.tsx'' = Inr (route_line ''a/:id'' ''routes/a/$id.tsx'')"
proof -
  have "route_entry cwd (dir_root [''a'']) ''$id.tsx'' = Inr (registration_line [''a''] ''$id.tsx'')"
    by (rule route_entry_eq) (simp_all add: valid_name_def endswith_def)
  then have "route_entry cwd ''app/routes/a'' ''$id.tsx'' = Inr (route_line ''a/:id'' ''routes/a/$id.tsx'')"
    by (simp add: dir_root_a registration_line_def route_line_def startswith_def index_like_def strip_ext_def)
  moreover have "length (url_segments segs) = length segs" by (induction segs) auto
  ultimately show ?thesis by (simp add: url_segments_append startswith_def)
qed

theorem sigil_segment_rewritten_witness:
  "url_segments ([''users''] @ [CHR ''$'' # ''id''] @ [''edit'']) = [''users'', '':id'', ''edit'']
   \<and> \<not> startswith ''edit'' ''$''
   \<and> url_segments ([''users'', ''$id''] @ [''edit''] @ []) = [''users'', '':id'', ''edit'']"
  using sigil_segment_rewritten[where xs="[''users'']" and name="''id''" and ys="[''edit'']"
      and seg="''edit''" and cwd="''/''" and segs="[]"]
    sigil_segment_rewritten[where xs="[''users'', ''$id'']" and name="''x''" and ys="[]"
      and seg="''edit''" and cwd="''/''" and segs="[]"]
  by (simp add: startswith_def)

text \<open>
  C4. The loop body appends exactly one line for a qualifying file: the text
  \<open>index("importPath"),\<close> after four spaces when the derived URL path is empty, the text
  \<open>route("url", "importPath"),\<close> after four spaces with that URL path otherwise; in both
  the import path is the file's path relative to \<open>app\<close>, the parent of the root, extension
  kept. An index-like file directly in the root has the empty URL path and the index form.
\<close>

theorem one_registration_line_per_file:
  assumes "list_all valid_name ds" "valid_name file" "endswith file ''.tsx''"
  shows \<open>\<exists>url_path.
           url_path_of (join_with ''/'' (ds @ [file])) = Inr url_path
         \<and> relpath cwd (path_join (dir_root ds) file) ''app'' = Inr (join_with ''/'' (''routes'' # ds @ [file]))
         \<and> route_entry cwd (dir_root ds) file
             = Inr (if url_path = [] then ''    index("'' @ join_with ''/'' (''routes'' # ds @ [file]) @ ''"),''
                    else ''    route("'' @ url_path @ ''", "'' @ join_with ''/'' (''routes'' # ds @ [file]) @ ''"),'')
         \<and> files_loop cwd (dir_root ds) [file] routes
             = Inr (routes @ [if url_path = [] then ''    index("'' @ join_with ''/'' (''routes'' # ds @ [file]) @ ''"),''
                              else ''    route("'' @ url_path @ ''", "'' @ join_with ''/'' (''routes'' # ds @ [file]) @ ''"),''])
         \<and> (index_like file \<and> ds = []
              \<longrightarrow> url_path = []
                \<and> route_entry cwd base_dir file = Inr (''    index("routes/'' @ file @ ''"),''))\<close>
proof -
  let ?u = "join_with ''/'' (url_segments (if index_like file then ds else ds @ [strip_ext file]))"
  let ?imp = "join_with ''/'' (''routes'' # ds @ [file])"
  let ?line = \<open>if ?u = [] then ''    index("'' @ ?imp @ ''"),''
               else ''    route("'' @ ?u @ ''", "'' @ ?imp @ ''"),''\<close>
  have u: "url_path_of (join_with ''/'' (ds @ [file])) = Inr ?u"
    using assms(3) by (simp add: url_path_of_def route_segments_eq[OF assms(1,2)])
  have r: "relpath cwd (path_join (dir_root ds) file) ''app'' = Inr ?imp"
    using rel_path_eq[OF assms(1,2)] .
  have e: "route_entry cwd (dir_root ds) file = Inr ?line"
    using route_entry_eq[OF assms, of cwd] by (simp add: registration_line_def Let_def)
  have f: "files_loop cwd (dir_root ds) [file] routes = Inr (routes @ [?line])"
    using e assms(3) by simp
  have i: \<open>?u = [] \<and> route_entry cwd base_dir file = Inr (''    index("routes/'' @ file @ ''"),'')\<close>
    if "index_like file \<and> ds = []"
    using that e by (simp add: dir_root_Nil)
  from u r e f i show ?thesis by blast
qed

theorem one_registration_line_per_file_witness:
  \<open>list_all valid_name [] \<and> valid_name ''_index.tsx'' \<and> endswith ''_index.tsx'' ''.tsx''
   \<and> index_like ''_index.tsx''
   \<and> route_entry ''/home/dev/portal'' base_dir ''_index.tsx'' = Inr ''    index("routes/_index.tsx"),''
   \<and> list_all valid_name [''events''] \<and> valid_name ''new.tsx'' \<and> endswith ''new.tsx'' ''.tsx''
   \<and> files_loop ''/home/dev/portal'' ''app/routes/events'' [''new.tsx''] []
        = Inr [''    route("events/new", "routes/events/new.tsx"),'']\<close>
proof -
  have a: "list_all valid_name []" "valid_name ''_index.tsx''" "endswith ''_index.tsx'' ''.tsx''"
    "index_like ''_index.tsx''"
    by (simp_all add: valid_name_def endswith_def index_like_def)
  have b: "list_all valid_name [''events'']" "valid_name ''new.tsx''" "endswith ''new.tsx'' ''.tsx''"
    by (simp_all add: valid_name_def endswith_def)
  have u: "url_path_of ''events/new.tsx'' = Inr ''events/new''"
    by (simp add: url_path_of_def route_segments_def index_like_def endswith_def startswith_def)
  have d: "dir_root [''events''] = ''app/routes/events''"
    by (simp add: dir_root_def base_dir_def path_join_def startswith_def endswith_def)
  show ?thesis
    using one_registration_line_per_file[OF a(1,2,3), of "''/home/dev/portal''" "[]"]
      one_registration_line_per_file[OF b, of "''/home/dev/portal''" "[]"] a b
    by (auto simp: u d)
qed

text \<open>
  C5. In the output of a run that writes the file, the lines between header and footer
  are a rearrangement of the lines collected, in ascending order of the whole line as a
  string: each line is at most the line after it.
\<close>

theorem output_lines_sorted:
  assumes "generate encodable cwd evs out = (None, written)"
  shows "\<exists>ls. written = Some (header @ join_with [CHR 0x0A] ls @ footer)
            \<and> mset ls = mset (map (line_of cwd) (tsx_files_of (yielded evs)))
            \<and> sorted ls
            \<and> (\<forall>i. Suc i < length ls \<longrightarrow> ls ! i \<le> ls ! Suc i)"
proof -
  let ?ls = "sort (map (line_of cwd) (tsx_files_of (yielded evs)))"
  have "written = Some (header @ join_with [CHR 0x0A] ?ls @ footer)"
    using assms by (auto simp: generate_eq split: option.splits if_splits)
  moreover have "mset ?ls = mset (map (line_of cwd) (tsx_files_of (yielded evs)))" by simp
  moreover have "sorted ?ls" by simp
  moreover have "\<forall>i. Suc i < length ?ls \<longrightarrow> ?ls ! i \<le> ?ls ! Suc i"
    using sorted_adjacent[of ?ls] by simp
  ultimately show ?thesis by blast
qed

theorem output_lines_sorted_witness:
  \<open>generate utf8_valid ''/home/dev/portal'' [Yield (''app/routes'', [''a''], [''a.tsx'']), Yield (''app/routes/a'', [], [''b.tsx'', ''$id.tsx''])] None
      = (None, Some (header @ join_with [CHR 0x0A] [''    route("a", "routes/a.tsx"),'',
            ''    route("a/:id", "routes/a/$id.tsx"),'',
            ''    route("a/b", "routes/a/b.tsx"),''] @ footer))
   \<and> sorted [''    route("a", "routes/a.tsx"),'',
            ''    route("a/:id", "routes/a/$id.tsx"),'',
            ''    route("a/b", "routes/a/b.tsx"),'']
   \<and> ''    route("a/:id", "routes/a/$id.tsx"),'' \<le> ''    route("a/b", "routes/a/b.tsx"),''\<close>
proof -
  let ?evs = "[Yield (''app/routes'', [''a''], [''a.tsx'']), Yield (''app/routes/a'', [], [''b.tsx'', ''$id.tsx''])]"
  let ?cwd = "''/home/dev/portal''"
  have r: "raised ?evs = None" by simp
  have t: "tsx_files_of (yielded ?evs)
             = [(dir_root [], ''a.tsx''), (dir_root [''a''], ''b.tsx''), (dir_root [''a''], ''$id.tsx'')]"
    by (simp add: tsx_files_of_def endswith_def dir_root_a dir_root_Nil base_dir_def)
  have l: \<open>map (line_of ?cwd) (tsx_files_of (yielded ?evs))
             = [''    route("a", "routes/a.tsx"),'', ''    route("a/b", "routes/a/b.tsx"),'',
                ''    route("a/:id", "routes/a/$id.tsx"),'']\<close>
    unfolding t
    by (simp add: line_of_valid valid_name_def endswith_def registration_line_def index_like_def
        strip_ext_def startswith_def)
  have s: \<open>sort [''    route("a", "routes/a.tsx"),'', ''    route("a/b", "routes/a/b.tsx"),'',
                ''    route("a/:id", "routes/a/$id.tsx"),''] = [''    route("a", "routes/a.tsx"),'',
            ''    route("a/:id", "routes/a/$id.tsx"),'',
            ''    route("a/b", "routes/a/b.tsx"),'']\<close>
    by simp
  have u: \<open>utf8_valid (header @ join_with [CHR 0x0A] [''    route("a", "routes/a.tsx"),'',
            ''    route("a/:id", "routes/a/$id.tsx"),'',
            ''    route("a/b", "routes/a/b.tsx"),''] @ footer)\<close>
    by (rule utf8_valid_ascii_only) (simp add: header_def footer_def in_range_def)
  have g: \<open>generate utf8_valid ?cwd ?evs None
             = (None, Some (header @ join_with [CHR 0x0A] [''    route("a", "routes/a.tsx"),'',
            ''    route("a/:id", "routes/a/$id.tsx"),'',
            ''    route("a/b", "routes/a/b.tsx"),''] @ footer))\<close>
    unfolding generate_eq r l s using u by simp
  obtain ls where ls: \<open>Some (header @ join_with [CHR 0x0A] [''    route("a", "routes/a.tsx"),'',
            ''    route("a/:id", "routes/a/$id.tsx"),'',
            ''    route("a/b", "routes/a/b.tsx"),''] @ footer)
                         = Some (header @ join_with [CHR 0x0A] ls @ footer)\<close>
      "mset ls = mset (map (line_of ?cwd) (tsx_files_of (yielded ?evs)))" "sorted ls"
      "\<forall>i. Suc i < length ls \<longrightarrow> ls ! i \<le> ls ! Suc i"
    using output_lines_sorted[OF g] by blast
  have "ls = sort (map (line_of ?cwd) (tsx_files_of (yielded ?evs)))"
    using properties_for_sort[OF ls(2) ls(3)] by simp
  then have e: \<open>ls = [''    route("a", "routes/a.tsx"),'',
            ''    route("a/:id", "routes/a/$id.tsx"),'',
            ''    route("a/b", "routes/a/b.tsx"),'']\<close> unfolding l s .
  have \<open>''    route("a/:id", "routes/a/$id.tsx"),'' \<le> ''    route("a/b", "routes/a/b.tsx"),''\<close>
    using ls(4)[rule_format, of 1] unfolding e by (simp del: One_nat_def add: numeral_2_eq_2)
  with g ls(3) e show ?thesis by simp
qed

text \<open>
  C7. A run in which the walk raises ends with that exception and leaves the output file
  as it was; a run that changes the output file, and so a run that succeeds, is one
  whose walk raised nothing.
\<close>

theorem failed_walk_leaves_output_untouched:
  "(raised evs = Some e \<longrightarrow> generate encodable cwd evs out = (Some e, out))
   \<and> (snd (generate encodable cwd evs out) \<noteq> out \<longrightarrow> raised evs = None)
   \<and> (fst (generate encodable cwd evs out) = None \<longrightarrow> raised evs = None)"
  by (simp add: generate_eq split: option.splits)

theorem failed_walk_leaves_output_untouched_witness:
  "raised [Yield (''app/routes'', [], [''a.tsx'']), Raise OSError, Yield (''app/routes/b'', [], [])] = Some OSError
   \<and> generate utf8_valid ''/home/dev/portal'' [Yield (''app/routes'', [], [''a.tsx'']), Raise OSError, Yield (''app/routes/b'', [], [])] (Some ''old'') = (Some OSError, Some ''old'')
   \<and> snd (generate utf8_valid ''/home/dev/portal'' [Yield (''app/routes'', [], [])] (Some ''old'')) \<noteq> Some ''old''
   \<and> fst (generate utf8_valid ''/home/dev/portal'' [Yield (''app/routes'', [], [])] (Some ''old'')) = None
   \<and> raised [Yield (''app/routes'', [], [])] = None"
proof -
  have u: "utf8_valid (header @ footer)"
    by (rule utf8_valid_ascii_only) (simp add: header_def footer_def in_range_def)
  have g: "generate utf8_valid ''/home/dev/portal'' [Yield (''app/routes'', [], [])] (Some ''old'') = (None, Some (header @ footer))"
    using u by (simp add: generate_eq tsx_files_of_def)
  have n: "header @ footer \<noteq> ''old''" by (simp add: header_def)
  show ?thesis
    using failed_walk_leaves_output_untouched[of "[Yield (''app/routes'', [], [''a.tsx'']), Raise OSError, Yield (''app/routes/b'', [], [])]" OSError utf8_valid "''/home/dev/portal''" "Some ''old''"]
      failed_walk_leaves_output_untouched[of "[Yield (''app/routes'', [], [])]" OSError utf8_valid "''/home/dev/portal''" "Some ''old''"]
      g n
    by simp
qed

text \<open>
  C9. Two runs whose walks present the same qualifying files, in whatever order and
  grouping, produce the same result and the same output text, whatever the output file
  held before; in particular two well-formed trees with the same qualifying files do.
\<close>

theorem output_independent_of_walk_order:
  "(mset (tsx_files_of items1) = mset (tsx_files_of items2)
      \<longrightarrow> generate encodable cwd (map Yield items1) out1 = generate encodable cwd (map Yield items2) out2)
   \<and> (valid_tree es1 \<and> valid_tree es2
       \<and> mset (qualifying (tree_files es1)) = mset (qualifying (tree_files es2))
      \<longrightarrow> generate_tree encodable cwd es1 out1 = generate_tree encodable cwd es2 out2)"
proof -
  have y: "\<And>items. raised (map Yield items) = None \<and> yielded (map Yield items) = items"
    subgoal for items by (induction items) auto
    done
  have 1: "generate encodable cwd (map Yield items1) out1 = generate encodable cwd (map Yield items2) out2"
    if m: "mset (tsx_files_of items1) = mset (tsx_files_of items2)"
  proof -
    have "mset (map (line_of cwd) (tsx_files_of items1)) = mset (map (line_of cwd) (tsx_files_of items2))"
      using m by (metis mset_map)
    then have "sort (map (line_of cwd) (tsx_files_of items1)) = sort (map (line_of cwd) (tsx_files_of items2))"
      by (rule sort_mset_eq)
    then show ?thesis by (simp add: generate_eq y)
  qed
  have 2: "generate_tree encodable cwd es1 out1 = generate_tree encodable cwd es2 out2"
    if v: "valid_tree es1 \<and> valid_tree es2
       \<and> mset (qualifying (tree_files es1)) = mset (qualifying (tree_files es2))"
  proof -
    have "mset (lines_under [] (tree_files es1)) = mset (lines_under [] (tree_files es2))"
      using v unfolding lines_under_Nil by (metis mset_map)
    then have "sort (lines_under [] (tree_files es1)) = sort (lines_under [] (tree_files es2))"
      by (rule sort_mset_eq)
    then show ?thesis
      using v walk_loop_tree[of es1 cwd] walk_loop_tree[of es2 cwd]
      by (simp add: generate_tree_def generate_def content_of_def del: walk.simps tree_files.simps)
  qed
  from 1 2 show ?thesis by blast
qed

theorem output_independent_of_walk_order_witness:
  "mset (tsx_files_of [(''app/routes'', [''a''], [''x.tsx'', ''y.tsx'']), (''app/routes/a'', [], [''z.tsx''])])
     = mset (tsx_files_of [(''app/routes/a'', [], [''z.tsx'']), (''app/routes'', [''a''], [''y.tsx'', ''readme.md'', ''x.tsx''])])
   \<and> generate utf8_valid ''/home/dev/portal''
        (map Yield [(''app/routes'', [''a''], [''x.tsx'', ''y.tsx'']), (''app/routes/a'', [], [''z.tsx''])]) None
     = generate utf8_valid ''/home/dev/portal''
        (map Yield [(''app/routes/a'', [], [''z.tsx'']), (''app/routes'', [''a''], [''y.tsx'', ''readme.md'', ''x.tsx''])]) (Some ''old'')"
proof -
  have m: "mset (tsx_files_of [(''app/routes'', [''a''], [''x.tsx'', ''y.tsx'']), (''app/routes/a'', [], [''z.tsx''])])
     = mset (tsx_files_of [(''app/routes/a'', [], [''z.tsx'']), (''app/routes'', [''a''], [''y.tsx'', ''readme.md'', ''x.tsx''])])"
    by (simp add: tsx_files_of_def endswith_def)
  show ?thesis
    using output_independent_of_walk_order[THEN conjunct1, rule_format, OF m, of utf8_valid "''/home/dev/portal''" None "Some ''old''"] m
    by simp
qed

section \<open>The claims about the renamer\<close>




text \<open>
  C8. On a tree in which no regular file named \<open>_index.tsx\<close> remains, as after a run that
  has renamed every one of them, \<open>find_files\<close> returns the empty list, and a run iterates
  over nothing: it raises nothing, opens no file and leaves the tree as it is.
\<close>

theorem second_run_finds_nothing:
  assumes "distinct_names es" "\<forall>ds. file_at es (ds @ [''_index.tsx'']) = None"
  shows "find_files rename_base_dir es = []
       \<and> rename_indexes decodable es = (None, es)
       \<and> rename_indexes_reads decodable es = []"
proof -
  have "\<And>ds. ds \<notin> set (index_dirs es)"
    using index_dirs_file_at[OF assms(1)] assms(2) by simp
  then have "index_dirs es = []" by (cases "index_dirs es") auto
  then show ?thesis
    by (simp add: find_files_index_dirs rename_indexes_eq rename_indexes_reads_def)
qed

theorem second_run_finds_nothing_witness:
  "rename_indexes all_decodable
        [(''_index.tsx'', File old_import), (''a'', Dir [(''_index.tsx'', File ''x''), (''b.tsx'', File ''y'')])]
      = (None, [(''a'', Dir [(''b.tsx'', File ''y''), (''index.tsx'', File ''x'')]), (''index.tsx'', File new_import)])
   \<and> distinct_names [(''a'', Dir [(''b.tsx'', File ''y''), (''index.tsx'', File ''x'')]), (''index.tsx'', File new_import)]
   \<and> file_at [(''a'', Dir [(''b.tsx'', File ''y''), (''index.tsx'', File ''x'')]), (''index.tsx'', File new_import)]
        [''a'', ''_index.tsx''] = None
   \<and> find_files rename_base_dir
        [(''a'', Dir [(''b.tsx'', File ''y''), (''index.tsx'', File ''x'')]), (''index.tsx'', File new_import)] = []
   \<and> rename_indexes all_decodable
        [(''a'', Dir [(''b.tsx'', File ''y''), (''index.tsx'', File ''x'')]), (''index.tsx'', File new_import)]
      = (None, [(''a'', Dir [(''b.tsx'', File ''y''), (''index.tsx'', File ''x'')]), (''index.tsx'', File new_import)])
   \<and> rename_indexes_reads all_decodable
        [(''a'', Dir [(''b.tsx'', File ''y''), (''index.tsx'', File ''x'')]), (''index.tsx'', File new_import)] = []
   \<and> rename_indexes utf8_valid [(''_index.tsx'', File [CHR 0xFF])]
      = (Some UnicodeDecodeError, [(''index.tsx'', File [CHR 0xFF])])
   \<and> distinct_names [(''index.tsx'', File [CHR 0xFF])]
   \<and> find_files rename_base_dir [(''index.tsx'', File [CHR 0xFF])] = []"
proof -
  let ?e = "[(''_index.tsx'', File old_import), (''a'', Dir [(''_index.tsx'', File ''x''), (''b.tsx'', File ''y'')])]"
  let ?e' = "[(''a'', Dir [(''b.tsx'', File ''y''), (''index.tsx'', File ''x'')]), (''index.tsx'', File new_import)]"
  let ?b = "[(''_index.tsx'', File [CHR 0xFF])]"
  let ?b' = "[(''index.tsx'', File [CHR 0xFF])]"
  have v: "valid_tree ?e" by (simp add: valid_name_def)
  have i: "index_dirs ?e = [[], [''a'']]" by (simp add: index_dirs_def)
  have r: "rename_indexes all_decodable ?e = (None, ?e')"
    unfolding rename_indexes_steps[OF v] i by (simp add: eval_step)
  have d': "distinct_names ?e'" by simp
  have i': "index_dirs ?e' = []" by (simp add: index_dirs_def)
  have n': "\<forall>ds. file_at ?e' (ds @ [''_index.tsx'']) = None"
    using index_dirs_file_at[OF d'] unfolding i' by simp
  have vb: "valid_tree ?b" by (simp add: valid_name_def)
  have ib: "index_dirs ?b = [[]]" by (simp add: index_dirs_def)
  have rb: "rename_indexes utf8_valid ?b = (Some UnicodeDecodeError, ?b')"
    unfolding rename_indexes_steps[OF vb] ib
    by (simp add: step_result_def file_at_def dir_at_def Let_def in_range_def)
  have db: "distinct_names ?b'" by simp
  have ib': "index_dirs ?b' = []" by (simp add: index_dirs_def)
  have nb: "\<forall>ds. file_at ?b' (ds @ [''_index.tsx'']) = None"
    using index_dirs_file_at[OF db] unfolding ib' by simp
  from second_run_finds_nothing[OF d' n', of all_decodable]
    second_run_finds_nothing[OF db nb, of utf8_valid] r rb d' db n'[rule_format, of "[''a'']"]
  show ?thesis by simp
qed

text \<open>
  C10, as amended. On a tree of regular files and directories without symbolic or hard
  links: whether the run ends normally or with an exception, a regular file keeps its
  place and content unless it is named \<open>_index.tsx\<close>, or is named \<open>index.tsx\<close> and lies in
  a directory that holds a regular file \<open>_index.tsx\<close> (the destination of a rename, which
  the rename replaces); no file other than these appears, and the directories stay the
  same. The only paths the run opens for reading are such destinations \<open>index.tsx\<close>, each
  after its rename, so that no other file has its content read.
\<close>

theorem only_index_files_change:
  assumes "valid_tree es" "distinct_names es" "rename_indexes decodable es = (r, es')"
  shows "(p \<noteq> [] \<and> last p \<noteq> ''_index.tsx''
           \<and> \<not> (last p = ''index.tsx'' \<and> file_at es (butlast p @ [''_index.tsx'']) \<noteq> None)
          \<longrightarrow> file_at es' p = file_at es p)
       \<and> dir_at es' p = dir_at es p
       \<and> (q \<in> set (rename_indexes_reads decodable es)
          \<longrightarrow> (\<exists>ds. file_at es (ds @ [''_index.tsx'']) \<noteq> None
                  \<and> resolve rename_base_dir q = Some (ds @ [''index.tsx''])))"
proof -
  have l: "rename_loop decodable rename_base_dir es (map (src_of rename_base_dir) (index_dirs es)) = (r, es')"
    using assms(3) by (simp add: rename_indexes_eq)
  note v = index_dirs_valid[OF assms(1)]
  have 1: "file_at es' p = file_at es p"
    if "p \<noteq> [] \<and> last p \<noteq> ''_index.tsx''
           \<and> \<not> (last p = ''index.tsx'' \<and> file_at es (butlast p @ [''_index.tsx'']) \<noteq> None)"
  proof (rule loop_frame[OF base_ok_rename_base_dir v l])
    show "p \<noteq> []" "last p \<noteq> ''_index.tsx''" using that by simp_all
    show "last p = ''index.tsx'' \<longrightarrow> butlast p \<notin> set (index_dirs es)"
      using that index_dirs_file_at[OF assms(2), of "butlast p"] by simp
  qed
  have 2: "dir_at es' p = dir_at es p"
    using loop_dirs[OF base_ok_rename_base_dir v l] .
  have 3: "\<exists>ds. file_at es (ds @ [''_index.tsx'']) \<noteq> None
                  \<and> resolve rename_base_dir q = Some (ds @ [''index.tsx''])"
    if "q \<in> set (rename_indexes_reads decodable es)"
    using run_reads[OF assms(1,2) that] .
  from 1 2 3 show ?thesis by blast
qed

theorem only_index_files_change_witness:
  "valid_tree [(''_index.tsx'', File ''n''), (''index.tsx'', File ''o''), (''a'', Dir [(''b.tsx'', File ''y'')])]
   \<and> distinct_names [(''_index.tsx'', File ''n''), (''index.tsx'', File ''o''), (''a'', Dir [(''b.tsx'', File ''y'')])]
   \<and> rename_indexes all_decodable
        [(''_index.tsx'', File ''n''), (''index.tsx'', File ''o''), (''a'', Dir [(''b.tsx'', File ''y'')])]
      = (None, [(''index.tsx'', File ''n''), (''a'', Dir [(''b.tsx'', File ''y'')])])
   \<and> [''a'', ''b.tsx''] \<noteq> [] \<and> last [''a'', ''b.tsx''] \<noteq> ''_index.tsx''
   \<and> \<not> (last [''a'', ''b.tsx''] = ''index.tsx''
         \<and> file_at [(''_index.tsx'', File ''n''), (''index.tsx'', File ''o''), (''a'', Dir [(''b.tsx'', File ''y'')])]
              (butlast [''a'', ''b.tsx''] @ [''_index.tsx'']) \<noteq> None)
   \<and> file_at [(''index.tsx'', File ''n''), (''a'', Dir [(''b.tsx'', File ''y'')])] [''a'', ''b.tsx'']
      = file_at [(''_index.tsx'', File ''n''), (''index.tsx'', File ''o''), (''a'', Dir [(''b.tsx'', File ''y'')])] [''a'', ''b.tsx'']
   \<and> dir_at [(''index.tsx'', File ''n''), (''a'', Dir [(''b.tsx'', File ''y'')])] [''a'']
      = dir_at [(''_index.tsx'', File ''n''), (''index.tsx'', File ''o''), (''a'', Dir [(''b.tsx'', File ''y'')])] [''a'']
   \<and> rename_indexes_reads all_decodable
        [(''_index.tsx'', File ''n''), (''index.tsx'', File ''o''), (''a'', Dir [(''b.tsx'', File ''y'')])]
      = [rename_base_dir @ ''/index.tsx'']
   \<and> (\<exists>ds. file_at [(''_index.tsx'', File ''n''), (''index.tsx'', File ''o''), (''a'', Dir [(''b.tsx'', File ''y'')])]
               (ds @ [''_index.tsx'']) \<noteq> None
          \<and> resolve rename_base_dir (rename_base_dir @ ''/index.tsx'') = Some (ds @ [''index.tsx'']))"
proof -
  let ?e = "[(''_index.tsx'', File ''n''), (''index.tsx'', File ''o''), (''a'', Dir [(''b.tsx'', File ''y'')])]"
  have v: "valid_tree ?e" by (simp add: valid_name_def)
  have d: "distinct_names ?e" by simp
  have i: "index_dirs ?e = [[]]" by (simp add: index_dirs_def)
  have r: "rename_indexes all_decodable ?e
      = (None, [(''index.tsx'', File ''n''), (''a'', Dir [(''b.tsx'', File ''y'')])])"
    unfolding rename_indexes_steps[OF v] i by (simp add: eval_step)
  have ro: "rename_one all_decodable rename_base_dir ?e (src_of rename_base_dir [])
      = (None, [(''index.tsx'', File ''n''), (''a'', Dir [(''b.tsx'', File ''y'')])])"
    unfolding rename_one_resolved[OF base_ok_rename_base_dir, of "[]", simplified]
    by (simp add: eval_step)
  have rr: "rename_one_reads rename_base_dir ?e (src_of rename_base_dir [])
      = [root_of rename_base_dir ([] @ [''index.tsx''])]"
    by (rule reads_moved[OF base_ok_rename_base_dir]) (simp_all add: file_at_def dir_at_def)
  have p: "root_of rename_base_dir ([] @ [''index.tsx'']) = rename_base_dir @ ''/index.tsx''"
    using path_join_root_of[OF base_ok_rename_base_dir, of "[]" "''index.tsx''"] valid_index_names(2)
    by (simp add: root_of_def)
  have q: "rename_indexes_reads all_decodable ?e = [rename_base_dir @ ''/index.tsx'']"
    unfolding rename_indexes_reads_def find_files_index_dirs i
    by (simp add: rr ro p[simplified])
  from only_index_files_change[OF v d r, of "[''a'', ''b.tsx'']" "rename_base_dir @ ''/index.tsx''"]
    only_index_files_change[OF v d r, of "[''a'']" "rename_base_dir @ ''/index.tsx''"] v d r q
  show ?thesis by simp
qed

text \<open>
  C10 as stated fails: a file named \<open>index.tsx\<close> beside a matched \<open>_index.tsx\<close> is
  overwritten by the rename.
\<close>

theorem sibling_index_overwritten:
  "''index.tsx'' \<noteq> ''_index.tsx''
   \<and> file_at [(''_index.tsx'', File ''new page''), (''index.tsx'', File ''old page'')] [''index.tsx'']
        = Some ''old page''
   \<and> file_at (snd (rename_indexes all_decodable
                      [(''_index.tsx'', File ''new page''), (''index.tsx'', File ''old page'')])) [''index.tsx'']
        = Some ''new page''
   \<and> ''new page'' \<noteq> ''old page''"
proof -
  let ?e = "[(''_index.tsx'', File ''new page''), (''index.tsx'', File ''old page'')]"
  have v: "valid_tree ?e" by (simp add: valid_name_def)
  have i: "index_dirs ?e = [[]]" by (simp add: index_dirs_def)
  have "rename_indexes all_decodable ?e = (None, [(''index.tsx'', File ''new page'')])"
    unfolding rename_indexes_steps[OF v] i by (simp add: eval_step)
  then show ?thesis by (simp add: file_at_def)
qed

end
